theory Spec2Isabelle
  imports Complex_Main
begin

section \<open>JavaScript values\<close>

text \<open>
  The route \<^verbatim>\<open>src/pages/api/predict.js\<close> and the page components work on untyped
  JavaScript values: the JSON sent back by the prediction service, the objects thrown by
  its client, the \<^verbatim>\<open>files\<close> object of the multipart parser. They are modelled by
  one datatype. An object is its list of own data properties in creation order.
  A number is the rational it denotes: the finite numbers JSON can carry, without
  \<^verbatim>\<open>NaN\<close> and the infinities. Comparisons are exact. Where the legacy page divides
  and multiplies to print a percentage, each operation is rounded as IEEE-754 binary64
  arithmetic rounds it; the sum and the mean of the confidences are taken exactly.
\<close>

datatype jsval =
    JUndefined
  | JNull
  | JBool bool
  | JNum rat
  | JStr string
  | JArr "jsval list"
  | JObj "(string \<times> jsval) list"

text \<open>\<^verbatim>\<open>ToBoolean\<close>: what \<^verbatim>\<open>if (v)\<close>, \<^verbatim>\<open>!v\<close>, \<^verbatim>\<open>a && b\<close> and \<^verbatim>\<open>a || b\<close> test.\<close>

fun truthy :: "jsval \<Rightarrow> bool" where
  "truthy JUndefined = False"
| "truthy JNull = False"
| "truthy (JBool b) = b"
| "truthy (JNum r) = (r \<noteq> 0)"
| "truthy (JStr s) = (s \<noteq> [])"
| "truthy (JArr xs) = True"
| "truthy (JObj ps) = True"

text \<open>The values that \<^verbatim>\<open>??\<close> and \<^verbatim>\<open>?.\<close> treat as missing.\<close>

fun nullish :: "jsval \<Rightarrow> bool" where
  "nullish JUndefined = True"
| "nullish JNull = True"
| "nullish v = False"

text \<open>\<^verbatim>\<open>a ?? b\<close>\<close>

definition coalesce :: "jsval \<Rightarrow> jsval \<Rightarrow> jsval" where
  "coalesce a b = (if nullish a then b else a)"

text \<open>\<^verbatim>\<open>Array.isArray(v)\<close>\<close>

fun isArray :: "jsval \<Rightarrow> bool" where
  "isArray (JArr xs) = True"
| "isArray v = False"

text \<open>The elements of an array, and none of any other value.\<close>

fun elements :: "jsval \<Rightarrow> jsval list" where
  "elements (JArr xs) = xs"
| "elements v = []"

text \<open>\<^verbatim>\<open>typeof v === "object"\<close>, which also holds of \<^verbatim>\<open>null\<close>.\<close>

fun typeof_object :: "jsval \<Rightarrow> bool" where
  "typeof_object JNull = True"
| "typeof_object (JArr xs) = True"
| "typeof_object (JObj ps) = True"
| "typeof_object v = False"

section \<open>Property keys and property access\<close>

text \<open>Decimal rendering of a natural number, as JavaScript names array indices.\<close>

definition digit_char :: "nat \<Rightarrow> char" where
  "digit_char d = char_of (48 + d)"

fun string_of_nat :: "nat \<Rightarrow> string" where
  "string_of_nat n =
     (if n < 10 then [digit_char n]
      else string_of_nat (n div 10) @ [digit_char (n mod 10)])"

declare string_of_nat.simps [simp del]

definition is_digit :: "char \<Rightarrow> bool" where
  "is_digit c = (48 \<le> (of_char c :: nat) \<and> (of_char c :: nat) \<le> 57)"

definition digit_value :: "char \<Rightarrow> nat" where
  "digit_value c = of_char c - 48"

definition nat_of_digits :: "string \<Rightarrow> nat" where
  "nat_of_digits s = foldl (\<lambda>a c. 10 * a + digit_value c) 0 s"

text \<open>
  A property key is an array index when it is the canonical decimal string of an
  integer from \<open>0\<close> to \<open>2\<^sup>3\<^sup>2 - 2\<close>.
\<close>

definition array_index :: "string \<Rightarrow> nat option" where
  "array_index s =
     (if s \<noteq> [] \<and> list_all is_digit s \<and> (s = ''0'' \<or> hd s \<noteq> CHR ''0'')
         \<and> nat_of_digits s < 4294967295
      then Some (nat_of_digits s) else None)"

text \<open>
  \<^verbatim>\<open>v[k]\<close> and \<^verbatim>\<open>v.k\<close> on a value that is neither \<^verbatim>\<open>null\<close> nor
  \<^verbatim>\<open>undefined\<close>: the own data properties. Inherited methods are not data, and no key
  the code reads is the name of one.
\<close>

fun js_get :: "jsval \<Rightarrow> string \<Rightarrow> jsval" where
  "js_get (JObj ps) k = (case map_of ps k of Some v \<Rightarrow> v | None \<Rightarrow> JUndefined)"
| "js_get (JArr xs) k =
     (case array_index k of
        Some i \<Rightarrow> if i < length xs then xs ! i else JUndefined
      | None \<Rightarrow> if k = ''length'' then JNum (of_nat (length xs)) else JUndefined)"
| "js_get (JStr s) k =
     (case array_index k of
        Some i \<Rightarrow> if i < length s then JStr [s ! i] else JUndefined
      | None \<Rightarrow> if k = ''length'' then JNum (of_nat (length s)) else JUndefined)"
| "js_get v k = JUndefined"

text \<open>
  The \<^verbatim>\<open>TypeError\<close> a property read on \<^verbatim>\<open>null\<close> or \<^verbatim>\<open>undefined\<close> throws. The
  wording of its message belongs to the engine.
\<close>

definition TypeError :: jsval where
  "TypeError =
     JObj [(''name'', JStr ''TypeError''),
           (''message'', JStr ''Cannot read properties of undefined'')]"

text \<open>\<^verbatim>\<open>v.k\<close>: the thrown value on the left, the property on the right.\<close>

definition read_prop :: "jsval \<Rightarrow> string \<Rightarrow> jsval + jsval" where
  "read_prop v k = (if nullish v then Inl TypeError else Inr (js_get v k))"

text \<open>\<^verbatim>\<open>v?.k\<close>\<close>

definition opt_prop :: "jsval \<Rightarrow> string \<Rightarrow> jsval" where
  "opt_prop v k = (if nullish v then JUndefined else js_get v k)"

text \<open>\<^verbatim>\<open>k in v\<close> for a \<^verbatim>\<open>v\<close> with \<^verbatim>\<open>typeof v === "object"\<close>.\<close>

fun js_in :: "string \<Rightarrow> jsval \<Rightarrow> bool" where
  "js_in k (JObj ps) = (k \<in> set (map fst ps))"
| "js_in k (JArr xs) =
     (case array_index k of Some i \<Rightarrow> i < length xs | None \<Rightarrow> k = ''length'')"
| "js_in k v = False"

section \<open>The prediction route\<close>

text \<open>
  \<^verbatim>\<open>src/pages/api/predict.js\<close>. What the route awaits either resolves with a value or
  rejects with a thrown value; a block of the handler either returns the response it has
  sent or throws.
\<close>

datatype outcome = Resolves jsval | Rejects jsval

record response =
  status :: nat
  body :: jsval

datatype completion = Return response | Throw jsval

text \<open>
  Everything outside the handler that it asks: the request method, what the multipart
  parser hands to its callback (\<^verbatim>\<open>err\<close>, \<^verbatim>\<open>fields\<close>, \<^verbatim>\<open>files\<close>), what reading a
  path gives, whether the client connects, and what the \<open>n\<close>-th call of
  \<^verbatim>\<open>client.predict("/predict", { file })\<close> gives for the file it is passed. The
  \<^verbatim>\<open>Blob\<close> wrapped around the buffer holds the same bytes and is not told apart from it.
\<close>

record environment =
  req_method :: string
  form_parse :: "jsval \<times> jsval \<times> jsval"
  fs_readFile :: "jsval \<Rightarrow> outcome"
  Client_connect :: outcome
  client_predict :: "nat \<Rightarrow> jsval \<Rightarrow> outcome"

text \<open>
  The library functions that turn values into text and back, taken as they come:
  \<^verbatim>\<open>JSON.stringify\<close>, the decimal text of a number (\<^verbatim>\<open>String(v)\<close> and
  \<^verbatim>\<open>v.toString()\<close> of a number \<open>v\<close>) and the number a text denotes
  (\<^verbatim>\<open>Number(s)\<close>). \<^verbatim>\<open>toString()\<close> is the built-in method of each kind of value (an
  object that has neither \<^verbatim>\<open>message\<close> nor \<^verbatim>\<open>type\<close> is a plain one here).
\<close>

record builtins =
  JSON_stringify :: "jsval \<Rightarrow> string"
  Number_toString :: "rat \<Rightarrow> string"
  String_toNumber :: "string \<Rightarrow> rat"

fun join_comma :: "string list \<Rightarrow> string" where
  "join_comma [] = []"
| "join_comma [x] = x"
| "join_comma (x # y # ys) = x @ '','' @ join_comma (y # ys)"

fun js_toString :: "builtins \<Rightarrow> jsval \<Rightarrow> string" where
  "js_toString B JUndefined = ''undefined''"
| "js_toString B JNull = ''null''"
| "js_toString B (JBool b) = (if b then ''true'' else ''false'')"
| "js_toString B (JNum r) = Number_toString B r"
| "js_toString B (JStr s) = s"
| "js_toString B (JArr xs) =
     join_comma (map (\<lambda>x. if nullish x then [] else js_toString B x) xs)"
| "js_toString B (JObj ps) = ''[object Object]''"

text \<open>
  The variable \<^verbatim>\<open>uploadedPath\<close> and a log of what the handler has done: connections
  opened, \<^verbatim>\<open>predict\<close> calls made, back-off delays awaited, paths passed to
  \<^verbatim>\<open>unlink\<close>.
\<close>

record hstate =
  uploadedPath :: jsval
  connects :: nat
  predicts :: nat
  waits :: nat
  unlinks :: "jsval list"

definition initial :: hstate where
  "initial = \<lparr> uploadedPath = JUndefined, connects = 0, predicts = 0, waits = 0,
               unlinks = [] \<rparr>"

text \<open>Lines 12-19.\<close>

definition parseForm :: "environment \<Rightarrow> outcome" where
  "parseForm env =
     (case form_parse env of
        (err, fields_arg, files) \<Rightarrow>
          if truthy err then Rejects err
          else Resolves (JObj [(''fields'', fields_arg), (''files'', files)]))"

definition maxAttempts :: nat where
  "maxAttempts = 12"

definition queued_body :: jsval where
  "queued_body =
     JObj [(''queued'', JBool True),
           (''message'', JStr ''Prediction queued, try again later'')]"

text \<open>Line 65: \<^verbatim>\<open>result && result.type === "status" && result.queue\<close>\<close>

definition queued_result :: "jsval \<Rightarrow> bool" where
  "queued_result result =
     (truthy result \<and> js_get result ''type'' = JStr ''status''
        \<and> truthy (js_get result ''queue''))"

text \<open>Line 80 (and line 99):
  \<^verbatim>\<open>err && typeof err === "object" && err.type === "status" && err.queue\<close>\<close>

definition queued_error :: "jsval \<Rightarrow> bool" where
  "queued_error err =
     (truthy err \<and> typeof_object err \<and> js_get err ''type'' = JStr ''status''
        \<and> truthy (js_get err ''queue''))"

text \<open>Lines 75-77: the response to a result that is not the queued status.\<close>

definition final_response :: "jsval \<Rightarrow> response" where
  "final_response result =
     (if truthy (opt_prop result ''data'')
      then \<lparr> status = 200, body = js_get result ''data'' \<rparr>
      else \<lparr> status = 200,
             body = coalesce result (JObj [(''message'', JStr ''No result returned'')]) \<rparr>)"

text \<open>
  Lines 59-96: the loop from \<^verbatim>\<open>attempt\<close> on, and the response after it. Every pass
  calls \<^verbatim>\<open>predict\<close> once; a queued status before the last attempt waits
  \<^verbatim>\<open>delayMs\<close> and goes on.
\<close>

function poll :: "(nat \<Rightarrow> outcome) \<Rightarrow> nat \<Rightarrow> hstate \<Rightarrow> completion \<times> hstate" where
  "poll predict attempt s =
     (if attempt \<le> maxAttempts then
        (case predict attempt of
           Resolves result \<Rightarrow>
             if queued_result result then
               (if attempt = maxAttempts
                then (Return \<lparr> status = 202, body = queued_body \<rparr>,
                      s\<lparr>predicts := predicts s + 1\<rparr>)
                else poll predict (attempt + 1)
                       (s\<lparr>predicts := predicts s + 1, waits := waits s + 1\<rparr>))
             else (Return (final_response result), s\<lparr>predicts := predicts s + 1\<rparr>)
         | Rejects err \<Rightarrow>
             if queued_error err then
               (if attempt = maxAttempts
                then (Return \<lparr> status = 202, body = queued_body \<rparr>,
                      s\<lparr>predicts := predicts s + 1\<rparr>)
                else poll predict (attempt + 1)
                       (s\<lparr>predicts := predicts s + 1, waits := waits s + 1\<rparr>))
             else (Throw err, s\<lparr>predicts := predicts s + 1\<rparr>))
      else (Return \<lparr> status = 202, body = queued_body \<rparr>, s))"
  by pat_completeness auto
termination
  by (relation "measure (\<lambda>(predict, attempt, s). Suc maxAttempts - attempt)") auto

declare poll.simps [simp del]

text \<open>Line 31: \<^verbatim>\<open>files?.file ?? files?.upload ?? null\<close>\<close>

definition uploaded_of :: "jsval \<Rightarrow> jsval" where
  "uploaded_of files =
     coalesce (coalesce (opt_prop files ''file'') (opt_prop files ''upload'')) JNull"

text \<open>Line 35: \<^verbatim>\<open>if (Array.isArray(uploaded)) uploaded = uploaded[0]\<close>\<close>

definition first_of :: "jsval \<Rightarrow> jsval" where
  "first_of uploaded = (if isArray uploaded then js_get uploaded ''0'' else uploaded)"

text \<open>
  Line 37: \<^verbatim>\<open>uploaded.filepath ?? uploaded.filePath ?? uploaded.path\<close>, read once
  \<^verbatim>\<open>uploaded\<close> is known not to be \<^verbatim>\<open>null\<close> or \<^verbatim>\<open>undefined\<close>.
\<close>

definition path_of :: "jsval \<Rightarrow> jsval" where
  "path_of uploaded =
     coalesce (coalesce (js_get uploaded ''filepath'') (js_get uploaded ''filePath''))
       (js_get uploaded ''path'')"

text \<open>Lines 29-96, the body of \<^verbatim>\<open>try\<close>.\<close>

definition try_block :: "environment \<Rightarrow> hstate \<Rightarrow> completion \<times> hstate" where
  "try_block env s =
     (case parseForm env of
        Rejects err \<Rightarrow> (Throw err, s)
      | Resolves parsed \<Rightarrow>
          let files = js_get parsed ''files'';
              uploaded = uploaded_of files
          in if \<not> truthy uploaded
             then (Return \<lparr> status = 400,
                             body = JObj [(''error'', JStr ''No file uploaded'')] \<rparr>, s)
             else
               let uploaded1 = first_of uploaded
               in if nullish uploaded1 then (Throw TypeError, s)
                  else
                    let s1 = s\<lparr>uploadedPath := path_of uploaded1\<rparr>
                    in if \<not> truthy (uploadedPath s1)
                       then (Return \<lparr> status = 400,
                                       body = JObj [(''error'',
                                                JStr ''Uploaded file path not found'')] \<rparr>,
                             s1)
                       else
                         (case fs_readFile env (uploadedPath s1) of
                            Rejects err \<Rightarrow> (Throw err, s1)
                          | Resolves fileBuffer \<Rightarrow>
                              let s2 = s1\<lparr>connects := connects s1 + 1\<rparr>
                              in (case Client_connect env of
                                    Rejects err \<Rightarrow> (Throw err, s2)
                                  | Resolves client \<Rightarrow>
                                      poll (\<lambda>n. client_predict env n fileBuffer) 1 s2)))"

text \<open>Lines 97-109, the \<^verbatim>\<open>catch\<close> block.\<close>

definition catch_block :: "builtins \<Rightarrow> jsval \<Rightarrow> response" where
  "catch_block B err =
     (if queued_error err
      then \<lparr> status = 202, body = queued_body \<rparr>
      else if truthy err \<and> typeof_object err \<and> (js_in ''message'' err \<or> js_in ''type'' err)
      then \<lparr> status = 500,
             body = JObj [(''error'',
                      coalesce (js_get err ''message'') (JStr (JSON_stringify B err)))] \<rparr>
      else \<lparr> status = 500,
             body = JObj [(''error'',
                      (if truthy err \<and> js_toString B err \<noteq> []
                       then JStr (js_toString B err) else JStr ''Prediction error''))] \<rparr>)"

text \<open>Lines 110-116, the \<^verbatim>\<open>finally\<close> block; a failing \<^verbatim>\<open>unlink\<close> is swallowed.\<close>

definition finally_block :: "hstate \<Rightarrow> hstate" where
  "finally_block s =
     (if truthy (uploadedPath s) then s\<lparr>unlinks := unlinks s @ [uploadedPath s]\<rparr> else s)"

text \<open>Lines 21-117: the response sent and the final state.\<close>

definition handler :: "builtins \<Rightarrow> environment \<Rightarrow> response \<times> hstate" where
  "handler B env =
     (if req_method env \<noteq> ''POST''
      then (\<lparr> status = 405, body = JObj [(''error'', JStr ''Method not allowed'')] \<rparr>,
            initial)
      else
        (case try_block env initial of
           (Return r, s) \<Rightarrow> (r, finally_block s)
         | (Throw err, s) \<Rightarrow> (catch_block B err, finally_block s)))"

subsection \<open>Vocabulary of the claims about the route\<close>

text \<open>
  The queued sentinel in either form: a resolved value or a thrown one that the loop
  takes for the queued status.
\<close>

fun queued_outcome :: "outcome \<Rightarrow> bool" where
  "queued_outcome (Resolves result) = queued_result result"
| "queued_outcome (Rejects err) = queued_error err"

text \<open>Two upstream answers that differ at most in the form of the sentinel.\<close>

definition same_upstream :: "outcome \<Rightarrow> outcome \<Rightarrow> bool" where
  "same_upstream a b = (a = b \<or> (queued_outcome a \<and> queued_outcome b))"

text \<open>
  The request is a \<^verbatim>\<open>POST\<close> whose form parses and holds an upload, and
  \<open>path\<close> is the truthy path the handler reads off it at line 37.
\<close>

definition accepted :: "environment \<Rightarrow> jsval \<Rightarrow> bool" where
  "accepted env path =
     (req_method env = ''POST'' \<and>
      (case form_parse env of
         (err, fields_arg, files) \<Rightarrow>
           \<not> truthy err \<and> truthy (uploaded_of files)
           \<and> \<not> nullish (first_of (uploaded_of files))
           \<and> path = path_of (first_of (uploaded_of files))
           \<and> truthy path))"

text \<open>
  What the multipart parser has stored when it hands over \<^verbatim>\<open>files\<close>: it writes every
  uploaded file to a temporary file and lists it under its field name, one file or an
  array of files, each with its path.
\<close>

definition file_entries :: "jsval \<Rightarrow> jsval list" where
  "file_entries files =
     (case files of
        JObj ps \<Rightarrow> concat (map (\<lambda>(k, v). if isArray v then elements v else [v]) ps)
      | _ \<Rightarrow> [])"

definition stored_paths :: "environment \<Rightarrow> jsval list" where
  "stored_paths env =
     (case form_parse env of
        (err, fields_arg, files) \<Rightarrow> map path_of (file_entries files))"

subsection \<open>Example requests\<close>

text \<open>
  A \<^verbatim>\<open>POST\<close> with one file under the field \<^verbatim>\<open>file\<close>, stored at
  \<^verbatim>\<open>/tmp/upload_1\<close>; reading it and connecting succeed, and the \<open>n\<close>-th call of
  \<^verbatim>\<open>predict\<close> is answered by \<open>answers n\<close>.
\<close>

definition upload_request :: "(nat \<Rightarrow> outcome) \<Rightarrow> environment" where
  "upload_request answers =
     \<lparr> req_method = ''POST'',
       form_parse = (JNull, JObj [],
                     JObj [(''file'', JObj [(''filepath'', JStr ''/tmp/upload_1'')])]),
       fs_readFile = (\<lambda>path. Resolves (JStr ''t,cpu'')),
       Client_connect = Resolves (JObj []),
       client_predict = (\<lambda>n payload. answers n) \<rparr>"

text \<open>The status message by which the client reports a queued job.\<close>

definition queued_status :: jsval where
  "queued_status = JObj [(''type'', JStr ''status''), (''queue'', JBool True)]"

text \<open>Queued on the first eleven calls, in both forms by turns, then a result.\<close>

definition eleven_queued :: "nat \<Rightarrow> outcome" where
  "eleven_queued n =
     (if n \<le> 11 then (if even n then Resolves queued_status else Rejects queued_status)
      else Resolves (JObj [(''data'', JArr [JObj [(''classification'', JArr [JNum 1])]])]))"


text \<open>Queued on the first call, then the result \<open>r\<close>.\<close>

definition queued_then :: "jsval \<Rightarrow> nat \<Rightarrow> outcome" where
  "queued_then r n = (if n \<le> 1 then Rejects queued_status else Resolves r)"

text \<open>The same answer to every call.\<close>

definition always :: "outcome \<Rightarrow> nat \<Rightarrow> outcome" where
  "always answer n = answer"

text \<open>A \<^verbatim>\<open>POST\<close> whose only file sits under the field \<^verbatim>\<open>document\<close>.\<close>

definition other_field_request :: environment where
  "other_field_request =
     \<lparr> req_method = ''POST'',
       form_parse = (JNull, JObj [],
                     JObj [(''document'', JObj [(''filepath'', JStr ''/tmp/upload_2'')])]),
       fs_readFile = (\<lambda>path. Resolves (JStr ''t,cpu'')),
       Client_connect = Resolves (JObj []),
       client_predict = (\<lambda>n payload. Resolves (JObj [(''data'', JArr [])])) \<rparr>"

text \<open>
  A \<^verbatim>\<open>POST\<close> with two files under the field \<^verbatim>\<open>file\<close>, listed as an array; every
  call of \<^verbatim>\<open>predict\<close> returns a result.
\<close>

definition two_files_request :: environment where
  "two_files_request =
     \<lparr> req_method = ''POST'',
       form_parse = (JNull, JObj [],
                     JObj [(''file'', JArr [JObj [(''filepath'', JStr ''/tmp/upload_a'')],
                                           JObj [(''filepath'', JStr ''/tmp/upload_b'')]])]),
       fs_readFile = (\<lambda>path. Resolves (JStr ''t,cpu'')),
       Client_connect = Resolves (JObj []),
       client_predict = (\<lambda>n payload. Resolves (JObj [(''data'', JArr [JNum 1])])) \<rparr>"

text \<open>
  Renderings for the examples: the only numbers they print are natural numbers, and they
  print no object.
\<close>

definition sample_builtins :: builtins where
  "sample_builtins =
     \<lparr> JSON_stringify = (\<lambda>v. ''{}''),
       Number_toString = (\<lambda>r. string_of_nat (nat \<lfloor>r\<rfloor>)),
       String_toNumber = (\<lambda>s. of_nat (nat_of_digits s)) \<rparr>"

section \<open>Values as the pages read them\<close>

text \<open>A number, where the page's annotations say \<^verbatim>\<open>number\<close>.\<close>

fun as_number :: "jsval \<Rightarrow> rat option" where
  "as_number (JNum r) = Some r"
| "as_number v = None"

section \<open>Own keys of an object\<close>

text \<open>
  The order in which \<^verbatim>\<open>Object.keys\<close> lists own string keys: the array indices in
  ascending numeric order, then the other keys in the order of their creation.
\<close>

definition index_value :: "string \<Rightarrow> nat" where
  "index_value k = (case array_index k of Some i \<Rightarrow> i | None \<Rightarrow> 0)"

definition ordered_keys :: "string list \<Rightarrow> string list" where
  "ordered_keys ks =
     sort_key index_value (filter (\<lambda>k. array_index k \<noteq> None) ks)
       @ filter (\<lambda>k. array_index k = None) ks"

text \<open>
  \<^verbatim>\<open>Object.keys(v)\<close> and \<^verbatim>\<open>Object.values(v)\<close> for a \<open>v\<close> that is neither
  \<^verbatim>\<open>null\<close> nor \<^verbatim>\<open>undefined\<close>. A property list names each key once.
\<close>

fun Object_keys :: "jsval \<Rightarrow> string list" where
  "Object_keys (JObj ps) = ordered_keys (map fst ps)"
| "Object_keys (JArr xs) = map string_of_nat [0..<length xs]"
| "Object_keys (JStr s) = map string_of_nat [0..<length s]"
| "Object_keys v = []"

definition Object_values :: "jsval \<Rightarrow> jsval list" where
  "Object_values v = map (js_get v) (Object_keys v)"

section \<open>The legacy page\<close>

text \<open>
  \<^verbatim>\<open>src/app/page.tsx\<close>, lines 58-79 and 343-353: the component that reads the flat
  \<^verbatim>\<open>classification\<close> and \<^verbatim>\<open>clusters\<close> arrays.
\<close>

text \<open>Lines 68-71: \<^verbatim>\<open>counts[k] = (counts[k] || 0) + 1\<close> on the object \<^verbatim>\<open>counts\<close>.\<close>

fun bump :: "(string \<times> nat) list \<Rightarrow> string \<Rightarrow> (string \<times> nat) list" where
  "bump [] k = [(k, 1)]"
| "bump ((k', n) # ps) k = (if k' = k then (k', n + 1) # ps else (k', n) # bump ps k)"

record counts_view =
  counts :: "(string \<times> nat) list"
  labels :: "string list"
  label_values :: "nat option list"
  total :: nat

text \<open>
  Lines 66-76, \<^verbatim>\<open>buildCounts(arr: number[])\<close>. The comparator
  \<^verbatim>\<open>Number(a) - Number(b)\<close> orders labels by the numbers they denote, and the sort is
  stable. \<^verbatim>\<open>counts[l]\<close> is \<^verbatim>\<open>undefined\<close>, here \<open>None\<close>, for a label that is not a key.
\<close>

definition buildCounts :: "builtins \<Rightarrow> rat list \<Rightarrow> counts_view" where
  "buildCounts B arr =
     (let counts = foldl bump [] (map (Number_toString B) arr);
          labels = sort_key (String_toNumber B) (ordered_keys (map fst counts));
          vals = map (map_of counts) labels
      in \<lparr> counts = counts, labels = labels, label_values = vals, total = length arr \<rparr>)"

text \<open>
  \<^verbatim>\<open>x.toFixed(1)\<close> for \<open>x\<close> below \<open>10\<^sup>2\<^sup>1\<close> in size: the tenths \<open>n\<close> nearest to
  \<open>x\<close>, the larger of two equally near, printed as the digits of \<open>n div 10\<close>, a point
  and the digit \<open>n mod 10\<close>. A percentage is at most 100.
\<close>

definition decimal1 :: "nat \<Rightarrow> string" where
  "decimal1 n = string_of_nat (n div 10) @ ''.'' @ string_of_nat (n mod 10)"

definition toFixed1 :: "rat \<Rightarrow> string" where
  "toFixed1 x =
     (if x < 0 then ''-'' @ decimal1 (nat \<lfloor>- x * 10 + 1 / 2\<rfloor>)
      else decimal1 (nat \<lfloor>x * 10 + 1 / 2\<rfloor>))"

text \<open>
  The arithmetic of line 346 is that of IEEE-754 binary64 numbers: the quotient and the
  product are the exact results rounded to the nearest number with a 53-bit significand,
  to the one with an even significand when two are equally near. \<open>bits n\<close> is the
  number of binary digits of \<open>n\<close>, \<open>log2_floor x\<close> the exponent \<open>e\<close> with
  \<open>2\<^sup>e \<le> x < 2\<^sup>e\<^sup>+\<^sup>1\<close> of a positive \<open>x\<close>. Subnormal numbers and overflow are
  left out: a count, a length, their quotient and a percentage are far from both.
\<close>

function bits :: "int \<Rightarrow> nat" where
  "bits n = (if n \<le> 0 then 0 else Suc (bits (n div 2)))"
  by pat_completeness auto
termination
  by (relation "measure nat") auto

declare bits.simps [simp del]

definition log2_floor :: "rat \<Rightarrow> int" where
  "log2_floor x =
     (case quotient_of x of
        (p, q) \<Rightarrow>
          let d = int (bits p) - int (bits q)
          in if power_int 2 d \<le> x then d else d - 1)"

definition round_even :: "rat \<Rightarrow> int" where
  "round_even y =
     (let f = \<lfloor>y\<rfloor>
      in if y - of_int f < 1 / 2 then f
         else if y - of_int f > 1 / 2 then f + 1
         else if even f then f else f + 1)"

definition binary64 :: "rat \<Rightarrow> rat" where
  "binary64 x =
     (if x = 0 then 0
      else let e = log2_floor \<bar>x\<bar> - 52
           in sgn x * of_int (round_even (\<bar>x\<bar> / power_int 2 e)) * power_int 2 e)"

text \<open>Line 346:
  \<^verbatim>\<open>classification.total ? ((val / classification.total) * 100).toFixed(1) : "0.0"\<close>.
  The count, the total and 100 are integers that binary64 holds exactly.\<close>

definition pct :: "nat \<Rightarrow> nat \<Rightarrow> string" where
  "pct val total_arg =
     (if total_arg \<noteq> 0
      then toFixed1 (binary64 (binary64 (of_nat val / of_nat total_arg) * 100))
      else ''0.0'')"

text \<open>
  Lines 344-352: one row per label, with \<^verbatim>\<open>val = classification.values[idx] ?? 0\<close>
  and its percentage.
\<close>

definition value_at :: "nat option list \<Rightarrow> nat \<Rightarrow> nat" where
  "value_at vs idx =
     (if idx < length vs then (case vs ! idx of Some v \<Rightarrow> v | None \<Rightarrow> 0) else 0)"

definition rows :: "counts_view \<Rightarrow> (string \<times> nat \<times> string) list" where
  "rows c =
     map (\<lambda>idx. (labels c ! idx, value_at (label_values c) idx,
                  pct (value_at (label_values c) idx) (total c)))
       [0..<length (labels c)]"

section \<open>The rich page\<close>

text \<open>
  \<^verbatim>\<open>src/unnamed/part_000\<close>, lines 59-93 (the same text is at lines 457-491 of
  \<^verbatim>\<open>src/app/page.tsx\<close>): the component that reads \<^verbatim>\<open>summary\<close>,
  \<^verbatim>\<open>cluster_profiles\<close> and \<^verbatim>\<open>predictions_preview\<close>.
\<close>

subsection \<open>Confidence statistics\<close>

text \<open>
  \<^verbatim>\<open>src/unnamed/part_000\<close>, lines 80-90 (the same text is at lines 478-488 of
  \<^verbatim>\<open>src/app/page.tsx\<close>). The reducer is annotated \<^verbatim>\<open>(a: number, b: number)\<close>;
  the functions below are the code at that type.
\<close>

text \<open>\<^verbatim>\<open>confidenceValues.reduce((a, b) => a + b, 0)\<close>\<close>

definition reduce_sum :: "rat list \<Rightarrow> rat" where
  "reduce_sum cs = foldl (\<lambda>a b. a + b) 0 cs"

definition avgConfidence :: "rat list \<Rightarrow> rat" where
  "avgConfidence cs =
     (if length cs > 0 then reduce_sum cs / of_nat (length cs) else 0)"

record confidence_ranges =
  high :: nat
  medium :: nat
  low :: nat
  very_low :: nat

definition confidenceRanges :: "rat list \<Rightarrow> confidence_ranges" where
  "confidenceRanges cs =
     \<lparr> high = length (filter (\<lambda>c. c \<ge> 0.8) cs),
       medium = length (filter (\<lambda>c. c \<ge> 0.6 \<and> c < 0.8) cs),
       low = length (filter (\<lambda>c. c \<ge> 0.4 \<and> c < 0.6) cs),
       very_low = length (filter (\<lambda>c. c < 0.4) cs) \<rparr>"

text \<open>The four ranges as the specification words them.\<close>

definition in_High :: "rat \<Rightarrow> bool" where
  "in_High c = (0.8 \<le> c \<and> c \<le> 1)"

definition in_Medium :: "rat \<Rightarrow> bool" where
  "in_Medium c = (0.6 \<le> c \<and> c < 0.8)"

definition in_Low :: "rat \<Rightarrow> bool" where
  "in_Low c = (0.4 \<le> c \<and> c < 0.6)"

definition in_Very_Low :: "rat \<Rightarrow> bool" where
  "in_Very_Low c = (0 \<le> c \<and> c < 0.4)"

text \<open>How many of the four ranges hold a value.\<close>

definition buckets_holding :: "rat \<Rightarrow> nat" where
  "buckets_holding c =
     length (filter (\<lambda>P. P c) [in_High, in_Medium, in_Low, in_Very_Low])"

subsection \<open>The variables of the two components\<close>

record rich_view =
  classLabels :: "string list"
  classValues :: "jsval list"
  totalWindows :: jsval
  dominantWorkload :: jsval
  clusterLabels :: "string list"
  clusterValues :: "jsval list"
  predictionsPreview :: "jsval list"
  recommendation :: jsval
  confidenceValues :: "jsval list"
  avgConfidence_view :: "rat option"
  confidenceRanges_view :: "confidence_ranges option"

datatype view =
    LegacyView (classificationData: "jsval list") (clusterData: "jsval list")
  | RichView rich_view

text \<open>
  Line 79 of \<^verbatim>\<open>part_000\<close>:
  \<^verbatim>\<open>predictionsPreview.map((p: any) => p.confidence ?? 0)\<close>. Reading \<^verbatim>\<open>confidence\<close>
  off an entry that is \<^verbatim>\<open>null\<close> or \<^verbatim>\<open>undefined\<close> throws, and the throw ends the
  \<^verbatim>\<open>map\<close>.
\<close>

fun map_confidence :: "jsval list \<Rightarrow> jsval + jsval list" where
  "map_confidence [] = Inr []"
| "map_confidence (p # ps) =
     (case read_prop p ''confidence'' of
        Inl e \<Rightarrow> Inl e
      | Inr c \<Rightarrow>
          (case map_confidence ps of
             Inl e \<Rightarrow> Inl e
           | Inr cs \<Rightarrow> Inr (coalesce c (JNum 0) # cs)))"

text \<open>
  Lines 60-93 of \<^verbatim>\<open>part_000\<close>, from \<^verbatim>\<open>output\<close> on. The average and the ranges
  are computed where every confidence value is a number; \<open>None\<close> stands for a list that
  holds something else, which JavaScript would coerce.
\<close>

definition rich_read :: "jsval \<Rightarrow> jsval + view" where
  "rich_read output =
     (if nullish output then Inl TypeError
      else
        let summary = coalesce (js_get output ''summary'') (JObj []);
            clusterProfiles = coalesce (js_get output ''cluster_profiles'') (JObj []);
            preview = (if isArray (js_get output ''predictions_preview'')
                       then elements (js_get output ''predictions_preview'') else []);
            recommend = coalesce (js_get output ''recommendation'') (JObj []);
            classDistribution = coalesce (js_get summary ''class_distribution'') (JObj []);
            windows = coalesce (js_get summary ''total_windows'') (JNum 0);
            dominant = coalesce (js_get summary ''dominant_workload_type'') (JStr ''Unknown'');
            cLabels = Object_keys clusterProfiles
        in (case map_confidence preview of
              Inl e \<Rightarrow> Inl e
            | Inr cvs \<Rightarrow>
                Inr (RichView
                  \<lparr> classLabels = Object_keys classDistribution,
                    classValues = Object_values classDistribution,
                    totalWindows = windows,
                    dominantWorkload = dominant,
                    clusterLabels = cLabels,
                    clusterValues =
                      map (\<lambda>id. coalesce (opt_prop (js_get clusterProfiles id) ''members'')
                                   (JNum 0)) cLabels,
                    predictionsPreview = preview,
                    recommendation = recommend,
                    confidenceValues = cvs,
                    avgConfidence_view = map_option avgConfidence (those (map as_number cvs)),
                    confidenceRanges_view =
                      map_option confidenceRanges (those (map as_number cvs)) \<rparr>)))"

text \<open>Line 59 of \<^verbatim>\<open>part_000\<close>: \<^verbatim>\<open>const output = result ?? {}\<close>\<close>

definition Home_rich :: "jsval \<Rightarrow> jsval + view" where
  "Home_rich result = rich_read (coalesce result (JObj []))"

text \<open>Lines 60-63 of \<^verbatim>\<open>page.tsx\<close>, from \<^verbatim>\<open>output\<close> on.\<close>

definition legacy_read :: "jsval \<Rightarrow> view" where
  "legacy_read output =
     LegacyView
       (if isArray (opt_prop output ''classification'')
        then elements (opt_prop output ''classification'') else [])
       (if isArray (opt_prop output ''clusters'')
        then elements (opt_prop output ''clusters'') else [])"

text \<open>Line 58 of \<^verbatim>\<open>page.tsx\<close>:
  \<^verbatim>\<open>Array.isArray(result) ? result[0] ?? {} : result ?? {}\<close>\<close>

definition legacy_output :: "jsval \<Rightarrow> jsval" where
  "legacy_output result =
     (if isArray result then coalesce (js_get result ''0'') (JObj [])
      else coalesce result (JObj []))"

definition Home_legacy :: "jsval \<Rightarrow> view" where
  "Home_legacy result = legacy_read (legacy_output result)"

text \<open>Lines 78-79 of \<^verbatim>\<open>page.tsx\<close>, for an array of numbers.\<close>

definition classification :: "builtins \<Rightarrow> view \<Rightarrow> counts_view option" where
  "classification B v =
     (case v of
        LegacyView cs ks \<Rightarrow> map_option (buildCounts B) (those (map as_number cs))
      | RichView r \<Rightarrow> None)"

subsection \<open>Vocabulary of the claims about the pages\<close>

text \<open>
  The shape detection in the words of the specification: an array result stands for its
  element 0; an output with a \<^verbatim>\<open>summary\<close> key is read as the rich shape, any other
  as the legacy shape.
\<close>

definition spec_deriveViewModel :: "jsval \<Rightarrow> jsval + view" where
  "spec_deriveViewModel result =
     (let output = (if isArray result then js_get result ''0'' else result)
      in if js_in ''summary'' output then rich_read output else Inr (legacy_read output))"

text \<open>
  The percentage in the words of the specification: \<open>count / total * 100\<close> rounded to
  one decimal place, a half rounded up, and \<^verbatim>\<open>"0.0"\<close> for a total of zero.
\<close>

definition spec_percentage :: "nat \<Rightarrow> nat \<Rightarrow> string" where
  "spec_percentage count_arg total_arg =
     (if total_arg = 0 then ''0.0''
      else decimal1 (nat \<lfloor>of_nat count_arg / of_nat total_arg * 100 * 10 + 1 / (2::rat)\<rfloor>))"

text \<open>
  Of a preview list: the confidences that are given as numbers, and how many entries
  give none.
\<close>

definition given_confidences :: "jsval list \<Rightarrow> rat list" where
  "given_confidences ps =
     concat (map (\<lambda>p. case js_get p ''confidence'' of JNum c \<Rightarrow> [c] | _ \<Rightarrow> []) ps)"

definition missing_confidences :: "jsval list \<Rightarrow> nat" where
  "missing_confidences ps = length (filter (\<lambda>p. nullish (js_get p ''confidence'')) ps)"

section \<open>Properties of the prediction route\<close>

lemma array_index_type [simp]: "array_index ''type'' = None"
  by (simp add: array_index_def is_digit_def)

lemma queued_forms_agree: "queued_error v = queued_result v"
  by (cases v) (auto simp: queued_error_def queued_result_def)

lemma poll_skip:
  "a + k \<le> maxAttempts \<Longrightarrow> (\<forall>i. a \<le> i \<and> i < a + k \<longrightarrow> queued_outcome (p i)) \<Longrightarrow>
   poll p a s = poll p (a + k) (s\<lparr>predicts := predicts s + k, waits := waits s + k\<rparr>)"
proof (induction k arbitrary: a s)
  case 0
  then show ?case by simp
next
  case (Suc k)
  have q: "queued_outcome (p a)" using Suc.prems by simp
  have lt: "a < maxAttempts" "a \<le> maxAttempts" using Suc.prems by simp_all
  have step: "poll p a s = poll p (a + 1) (s\<lparr>predicts := predicts s + 1, waits := waits s + 1\<rparr>)"
    using q lt by (subst poll.simps) (auto split: outcome.splits)
  have "poll p (a + 1) (s\<lparr>predicts := predicts s + 1, waits := waits s + 1\<rparr>)
        = poll p (a + 1 + k) ((s\<lparr>predicts := predicts s + 1, waits := waits s + 1\<rparr>)
             \<lparr>predicts := predicts (s\<lparr>predicts := predicts s + 1, waits := waits s + 1\<rparr>) + k,
              waits := waits (s\<lparr>predicts := predicts s + 1, waits := waits s + 1\<rparr>) + k\<rparr>)"
    using Suc.prems by (intro Suc.IH) auto
  with step show ?case by (simp add: add.commute add.left_commute)
qed

lemma poll_final:
  "a \<le> maxAttempts \<Longrightarrow> p a = Resolves r \<Longrightarrow> \<not> queued_result r \<Longrightarrow>
   poll p a s = (Return (final_response r), s\<lparr>predicts := predicts s + 1\<rparr>)"
  by (subst poll.simps) simp

lemma poll_throw:
  "a \<le> maxAttempts \<Longrightarrow> p a = Rejects e \<Longrightarrow> \<not> queued_error e \<Longrightarrow>
   poll p a s = (Throw e, s\<lparr>predicts := predicts s + 1\<rparr>)"
  by (subst poll.simps) simp

lemma poll_last_queued:
  "queued_outcome (p maxAttempts) \<Longrightarrow>
   poll p maxAttempts s
     = (Return \<lparr> status = 202, body = queued_body \<rparr>, s\<lparr>predicts := predicts s + 1\<rparr>)"
  by (subst poll.simps) (auto split: outcome.splits)

lemma poll_past:
  "\<not> a \<le> maxAttempts \<Longrightarrow>
   poll p a s = (Return \<lparr> status = 202, body = queued_body \<rparr>, s)"
  by (subst poll.simps) simp

lemma poll_queued_step:
  "a < maxAttempts \<Longrightarrow> queued_outcome (p a) \<Longrightarrow>
   poll p a s = poll p (a + 1) (s\<lparr>predicts := predicts s + 1, waits := waits s + 1\<rparr>)"
  by (subst poll.simps) (cases "p a"; simp)

lemma poll_cases:
  obtains (past) "\<not> a \<le> maxAttempts"
  | (step) "a < maxAttempts" "queued_outcome (p a)"
  | (last) "a = maxAttempts" "queued_outcome (p a)"
  | (final) r where "a \<le> maxAttempts" "p a = Resolves r" "\<not> queued_result r"
  | (throw) e where "a \<le> maxAttempts" "p a = Rejects e" "\<not> queued_error e"
proof (cases "a \<le> maxAttempts")
  case False
  then show ?thesis using past by simp
next
  case le: True
  show ?thesis
  proof (cases "queued_outcome (p a)")
    case True
    then show ?thesis using le step last by (cases "a = maxAttempts") auto
  next
    case False
    then show ?thesis using le final throw by (cases "p a") auto
  qed
qed

lemma poll_predicts_bound:
  "predicts (snd (poll p a s)) \<le> predicts s + (Suc maxAttempts - a)"
proof (induction p a s rule: poll.induct)
  case (1 p a s)
  show ?case
  proof (cases rule: poll_cases [where a = a and p = p])
    case past
    then show ?thesis by (simp add: poll_past)
  next
    case step
    have "predicts (snd (poll p (a + 1) (s\<lparr>predicts := predicts s + 1, waits := waits s + 1\<rparr>)))
            \<le> predicts (s\<lparr>predicts := predicts s + 1, waits := waits s + 1\<rparr>) + (Suc maxAttempts - (a + 1))"
    proof (cases "p a")
      case (Resolves r)
      with step show ?thesis using "1.IH"(1) [of r] by simp
    next
      case (Rejects e)
      with step show ?thesis using "1.IH"(2) [of e] by simp
    qed
    with step show ?thesis by (simp add: poll_queued_step)
  next
    case last
    then show ?thesis by (simp add: poll_last_queued)
  next
    case (final r)
    then show ?thesis by (simp add: poll_final)
  next
    case (throw e)
    then show ?thesis by (simp add: poll_throw)
  qed
qed

lemma poll_frame:
  "uploadedPath (snd (poll p a s)) = uploadedPath s
   \<and> connects (snd (poll p a s)) = connects s
   \<and> unlinks (snd (poll p a s)) = unlinks s"
proof (induction p a s rule: poll.induct)
  case (1 p a s)
  show ?case
  proof (cases rule: poll_cases [where a = a and p = p])
    case past
    then show ?thesis by (simp add: poll_past)
  next
    case step
    show ?thesis
    proof (cases "p a")
      case (Resolves r)
      with step show ?thesis using "1.IH"(1) [of r] by (simp add: poll_queued_step)
    next
      case (Rejects e)
      with step show ?thesis using "1.IH"(2) [of e] by (simp add: poll_queued_step)
    qed
  next
    case last
    then show ?thesis by (simp add: poll_last_queued)
  next
    case (final r)
    then show ?thesis by (simp add: poll_final)
  next
    case (throw e)
    then show ?thesis by (simp add: poll_throw)
  qed
qed

lemma same_upstream_queued:
  "same_upstream x y \<Longrightarrow> queued_outcome y = queued_outcome x"
  by (auto simp: same_upstream_def)

lemma same_upstream_eq:
  "same_upstream x y \<Longrightarrow> \<not> queued_outcome x \<Longrightarrow> y = x"
  by (auto simp: same_upstream_def)

lemma poll_same_upstream:
  "(\<forall>n. same_upstream (p n) (p' n)) \<Longrightarrow> poll p a s = poll p' a s"
proof (induction p a s rule: poll.induct)
  case (1 p a s)
  have su: "same_upstream (p a) (p' a)" using "1.prems" by simp
  show ?case
  proof (cases rule: poll_cases [where a = a and p = p])
    case past
    then show ?thesis by (simp add: poll_past)
  next
    case step
    then have q': "queued_outcome (p' a)" using su by (simp add: same_upstream_queued)
    have "poll p (a + 1) (s\<lparr>predicts := predicts s + 1, waits := waits s + 1\<rparr>)
          = poll p' (a + 1) (s\<lparr>predicts := predicts s + 1, waits := waits s + 1\<rparr>)"
    proof (cases "p a")
      case (Resolves r)
      with step show ?thesis using "1.IH"(1) [of r] "1.prems" by simp
    next
      case (Rejects e)
      with step show ?thesis using "1.IH"(2) [of e] "1.prems" by simp
    qed
    with step q' show ?thesis by (simp add: poll_queued_step)
  next
    case last
    then have "queued_outcome (p' a)" using su by (simp add: same_upstream_queued)
    with last show ?thesis by (simp add: poll_last_queued)
  next
    case (final r)
    then have "p' a = Resolves r" using su same_upstream_eq [of "p a" "p' a"] by simp
    with final show ?thesis by (simp add: poll_final)
  next
    case (throw e)
    then have "p' a = Rejects e" using su same_upstream_eq [of "p a" "p' a"] by simp
    with throw show ?thesis by (simp add: poll_throw)
  qed
qed

lemma try_block_accepted:
  assumes "accepted env path"
  shows "try_block env initial =
     (case fs_readFile env path of
        Rejects err \<Rightarrow> (Throw err, initial\<lparr>uploadedPath := path\<rparr>)
      | Resolves fileBuffer \<Rightarrow>
          (case Client_connect env of
             Rejects err \<Rightarrow> (Throw err, initial\<lparr>uploadedPath := path, connects := 1\<rparr>)
           | Resolves client \<Rightarrow>
               poll (\<lambda>n. client_predict env n fileBuffer) 1
                 (initial\<lparr>uploadedPath := path, connects := 1\<rparr>)))"
  using assms
  by (auto simp: accepted_def try_block_def parseForm_def Let_def initial_def
           split: prod.splits outcome.splits)


lemma handler_accepted:
  assumes "accepted env path" "fs_readFile env path = Resolves buf"
    "Client_connect env = Resolves client"
  shows "handler B env =
     (case poll (\<lambda>n. client_predict env n buf) 1
             (initial\<lparr>uploadedPath := path, connects := 1\<rparr>) of
        (Return r, s) \<Rightarrow> (r, finally_block s)
      | (Throw err, s) \<Rightarrow> (catch_block B err, finally_block s))"
proof -
  have "req_method env = ''POST''" using assms(1) by (simp add: accepted_def)
  then show ?thesis
    using try_block_accepted [OF assms(1)] assms(2,3) by (simp add: handler_def)
qed

lemma finally_block_counts [simp]:
  "predicts (finally_block s) = predicts s" "waits (finally_block s) = waits s"
  "connects (finally_block s) = connects s" "uploadedPath (finally_block s) = uploadedPath s"
  by (simp_all add: finally_block_def)

lemma queued_result_object:
  "queued_result v
     = (\<exists>ps q. v = JObj ps \<and> map_of ps ''type'' = Some (JStr ''status'')
               \<and> map_of ps ''queue'' = Some q \<and> truthy q)"
  by (cases v) (auto simp: queued_result_def split: option.splits)

text \<open>
  Claim C1, as amended. Take a request the handler accepts, whose file is read and whose
  client connects. If the first \<open>k < 12\<close> calls of \<^verbatim>\<open>predict\<close> give the queued
  sentinel, returned or thrown, and call \<open>k + 1\<close> returns a value \<open>r\<close> that is not the
  sentinel, the handler answers 200 after \<open>k + 1\<close> calls and \<open>k\<close> delays, with the body
  \<^verbatim>\<open>r.data\<close> when that is truthy, otherwise \<open>r\<close> itself when it is neither
  \<^verbatim>\<open>null\<close> nor \<^verbatim>\<open>undefined\<close>, otherwise \<^verbatim>\<open>{ message: "No result returned" }\<close>.
  If all twelve calls give the sentinel, it answers 202 with
  \<^verbatim>\<open>{ queued: true, message: "Prediction queued, try again later" }\<close> after exactly
  twelve calls. It never makes more than twelve calls. The sentinel is an object whose
  \<^verbatim>\<open>type\<close> is \<^verbatim>\<open>"status"\<close> and whose \<^verbatim>\<open>queue\<close> is truthy, thrown or returned
  alike, and changing the form in which it arrives at any call changes nothing in the
  response or the final state.
\<close>

theorem submit_retries_while_queued:
  assumes "accepted env path" "fs_readFile env path = Resolves buf"
    "Client_connect env = Resolves client"
  shows "(\<forall>k r. k < 12 \<and> (\<forall>i. 1 \<le> i \<and> i \<le> k \<longrightarrow> queued_outcome (client_predict env i buf))
              \<and> client_predict env (k + 1) buf = Resolves r \<and> \<not> queued_result r
            \<longrightarrow> status (fst (handler B env)) = 200
                \<and> (truthy (opt_prop r ''data'')
                      \<longrightarrow> body (fst (handler B env)) = js_get r ''data'')
                \<and> (\<not> truthy (opt_prop r ''data'') \<and> \<not> nullish r
                      \<longrightarrow> body (fst (handler B env)) = r)
                \<and> (nullish r
                      \<longrightarrow> body (fst (handler B env))
                            = JObj [(''message'', JStr ''No result returned'')])
                \<and> predicts (snd (handler B env)) = k + 1
                \<and> waits (snd (handler B env)) = k)
       \<and> ((\<forall>i. 1 \<le> i \<and> i \<le> 12 \<longrightarrow> queued_outcome (client_predict env i buf))
            \<longrightarrow> fst (handler B env)
                  = \<lparr> status = 202,
                      body = JObj [(''queued'', JBool True),
                                   (''message'', JStr ''Prediction queued, try again later'')] \<rparr>
                \<and> predicts (snd (handler B env)) = 12
                \<and> waits (snd (handler B env)) = 11)
       \<and> predicts (snd (handler B env)) \<le> 12
       \<and> (\<forall>v. queued_outcome (Rejects v) = queued_outcome (Resolves v))
       \<and> (\<forall>v. queued_outcome (Resolves v)
               = (\<exists>ps q. v = JObj ps \<and> map_of ps ''type'' = Some (JStr ''status'')
                         \<and> map_of ps ''queue'' = Some q \<and> truthy q))
       \<and> (\<forall>q. (\<forall>n. same_upstream (client_predict env n buf) (q n buf))
            \<longrightarrow> handler B (env\<lparr>client_predict := q\<rparr>) = handler B env)"
proof -
  let ?p = "\<lambda>n. client_predict env n buf"
  let ?s = "initial\<lparr>uploadedPath := path, connects := 1\<rparr>"
  note h = handler_accepted [OF assms, of B]
  have skip: "poll ?p 1 ?s = poll ?p (1 + k) (?s\<lparr>predicts := predicts ?s + k, waits := waits ?s + k\<rparr>)"
    if "k < 12" "\<forall>i. 1 \<le> i \<and> i \<le> k \<longrightarrow> queued_outcome (?p i)" for k
    using that by (intro poll_skip) (auto simp: maxAttempts_def)
  have a0: "fst (handler B env) = final_response r
           \<and> predicts (snd (handler B env)) = k + 1 \<and> waits (snd (handler B env)) = k"
    if "k < 12" "\<forall>i. 1 \<le> i \<and> i \<le> k \<longrightarrow> queued_outcome (?p i)"
       "?p (k + 1) = Resolves r" "\<not> queued_result r" for k r
  proof -
    have "poll ?p (1 + k) (?s\<lparr>predicts := predicts ?s + k, waits := waits ?s + k\<rparr>)
          = (Return (final_response r),
             ?s\<lparr>predicts := predicts ?s + k, waits := waits ?s + k\<rparr>
               \<lparr>predicts := predicts (?s\<lparr>predicts := predicts ?s + k, waits := waits ?s + k\<rparr>) + 1\<rparr>)"
      using that by (intro poll_final) (auto simp: maxAttempts_def add.commute)
    then show ?thesis
      using skip [OF that(1,2)] h by (simp add: initial_def)
  qed
  have a: "status (fst (handler B env)) = 200
           \<and> (truthy (opt_prop r ''data'') \<longrightarrow> body (fst (handler B env)) = js_get r ''data'')
           \<and> (\<not> truthy (opt_prop r ''data'') \<and> \<not> nullish r \<longrightarrow> body (fst (handler B env)) = r)
           \<and> (nullish r \<longrightarrow> body (fst (handler B env))
                              = JObj [(''message'', JStr ''No result returned'')])
           \<and> predicts (snd (handler B env)) = k + 1 \<and> waits (snd (handler B env)) = k"
    if "k < 12" "\<forall>i. 1 \<le> i \<and> i \<le> k \<longrightarrow> queued_outcome (?p i)"
       "?p (k + 1) = Resolves r" "\<not> queued_result r" for k r
    using a0 [OF that] by (auto simp: final_response_def coalesce_def opt_prop_def)
  have b: "fst (handler B env)
             = \<lparr> status = 202,
                 body = JObj [(''queued'', JBool True),
                              (''message'', JStr ''Prediction queued, try again later'')] \<rparr>
           \<and> predicts (snd (handler B env)) = 12 \<and> waits (snd (handler B env)) = 11"
    if all: "\<forall>i. 1 \<le> i \<and> i \<le> 12 \<longrightarrow> queued_outcome (?p i)"
  proof -
    have "poll ?p 1 ?s = poll ?p (1 + 11) (?s\<lparr>predicts := predicts ?s + 11, waits := waits ?s + 11\<rparr>)"
      using all by (intro skip) auto
    moreover have "queued_outcome (?p maxAttempts)" using all by (simp add: maxAttempts_def)
    ultimately show ?thesis
      using h poll_last_queued [of ?p "?s\<lparr>predicts := predicts ?s + 11, waits := waits ?s + 11\<rparr>"]
      by (simp add: maxAttempts_def initial_def queued_body_def)
  qed
  have c: "predicts (snd (handler B env)) \<le> 12"
  proof -
    have "predicts (snd (poll ?p 1 ?s)) \<le> predicts ?s + (Suc maxAttempts - 1)"
      by (rule poll_predicts_bound)
    then show ?thesis
      using h by (auto simp: maxAttempts_def initial_def split: prod.splits completion.splits)
  qed
  have d: "queued_outcome (Rejects v) = queued_outcome (Resolves v)" for v
    by (simp add: queued_forms_agree)
  have d': "queued_outcome (Resolves v)
               = (\<exists>ps q. v = JObj ps \<and> map_of ps ''type'' = Some (JStr ''status'')
                         \<and> map_of ps ''queue'' = Some q \<and> truthy q)" for v
    by (simp add: queued_result_object)
  have e: "handler B (env\<lparr>client_predict := q\<rparr>) = handler B env"
    if "\<forall>n. same_upstream (?p n) (q n buf)" for q
  proof -
    have acc: "accepted (env\<lparr>client_predict := q\<rparr>) path"
      using assms(1) by (simp add: accepted_def)
    have "handler B (env\<lparr>client_predict := q\<rparr>) =
       (case poll (\<lambda>n. q n buf) 1 ?s of
          (Return r, s) \<Rightarrow> (r, finally_block s)
        | (Throw err, s) \<Rightarrow> (catch_block B err, finally_block s))"
      using handler_accepted [OF acc, of buf client B] assms(2,3) by simp
    moreover have "poll ?p 1 ?s = poll (\<lambda>n. q n buf) 1 ?s"
      using that by (intro poll_same_upstream) simp
    ultimately show ?thesis using h by simp
  qed
  have A: "\<forall>k r. k < 12 \<and> (\<forall>i. 1 \<le> i \<and> i \<le> k \<longrightarrow> queued_outcome (?p i))
              \<and> ?p (k + 1) = Resolves r \<and> \<not> queued_result r
            \<longrightarrow> status (fst (handler B env)) = 200
                \<and> (truthy (opt_prop r ''data'')
                      \<longrightarrow> body (fst (handler B env)) = js_get r ''data'')
                \<and> (\<not> truthy (opt_prop r ''data'') \<and> \<not> nullish r
                      \<longrightarrow> body (fst (handler B env)) = r)
                \<and> (nullish r
                      \<longrightarrow> body (fst (handler B env))
                            = JObj [(''message'', JStr ''No result returned'')])
                \<and> predicts (snd (handler B env)) = k + 1
                \<and> waits (snd (handler B env)) = k"
    using a by blast
  have E: "\<forall>q. (\<forall>n. same_upstream (?p n) (q n buf))
            \<longrightarrow> handler B (env\<lparr>client_predict := q\<rparr>) = handler B env"
    using e by blast
  show ?thesis
    using A b c d d' E by (intro conjI allI impI) blast+
qed

lemma array_index_misc [simp]:
  "array_index ''message'' = None" "array_index ''queue'' = None" "array_index ''data'' = None"
  by (simp_all add: array_index_def is_digit_def)

lemma upload_request_accepted:
  "accepted (upload_request answers) (JStr ''/tmp/upload_1'')"
  by (simp add: accepted_def upload_request_def uploaded_of_def opt_prop_def coalesce_def
        first_of_def path_of_def)

lemma queued_status_queued:
  "queued_result queued_status" "queued_error queued_status"
  by (simp_all add: queued_result_def queued_error_def queued_status_def)

theorem submit_retries_while_queued_witness:
  "accepted (upload_request eleven_queued) (JStr ''/tmp/upload_1'')
   \<and> fst (handler sample_builtins (upload_request eleven_queued))
       = \<lparr> status = 200, body = JArr [JObj [(''classification'', JArr [JNum 1])]] \<rparr>
   \<and> predicts (snd (handler sample_builtins (upload_request eleven_queued))) = 12
   \<and> waits (snd (handler sample_builtins (upload_request eleven_queued))) = 11
   \<and> fst (handler sample_builtins (upload_request (always (Rejects queued_status))))
       = \<lparr> status = 202,
           body = JObj [(''queued'', JBool True),
                        (''message'', JStr ''Prediction queued, try again later'')] \<rparr>
   \<and> predicts (snd (handler sample_builtins
         (upload_request (always (Rejects queued_status))))) = 12"
proof -
  let ?env = "upload_request eleven_queued"
  let ?all = "upload_request (always (Rejects queued_status))"
  let ?r = "JObj [(''data'', JArr [JObj [(''classification'', JArr [JNum 1])]])]"
  have acc: "accepted ?env (JStr ''/tmp/upload_1'')"
    by (rule upload_request_accepted)
  have rf: "fs_readFile ?env (JStr ''/tmp/upload_1'') = Resolves (JStr ''t,cpu'')"
    by (simp add: upload_request_def)
  have cc: "Client_connect ?env = Resolves (JObj [])"
    by (simp add: upload_request_def)
  have q: "\<forall>i. 1 \<le> i \<and> i \<le> 11 \<longrightarrow> queued_outcome (client_predict ?env i (JStr ''t,cpu''))"
    by (simp add: upload_request_def eleven_queued_def queued_status_queued)
  have fin: "client_predict ?env (11 + 1) (JStr ''t,cpu'') = Resolves ?r"
    by (simp add: upload_request_def eleven_queued_def)
  have nq: "\<not> queued_result ?r"
    by (simp add: queued_result_def)
  have tr: "truthy (opt_prop ?r ''data'')" by (simp add: opt_prop_def)
  have one: "status (fst (handler sample_builtins ?env)) = 200
        \<and> body (fst (handler sample_builtins ?env)) = js_get ?r ''data''
        \<and> predicts (snd (handler sample_builtins ?env)) = 11 + 1
        \<and> waits (snd (handler sample_builtins ?env)) = 11"
    using submit_retries_while_queued [OF acc rf cc, of sample_builtins,
             THEN conjunct1, rule_format, of 11 ?r] q fin nq tr
    by simp
  then have one': "fst (handler sample_builtins ?env)
       = \<lparr> status = 200, body = JArr [JObj [(''classification'', JArr [JNum 1])]] \<rparr>"
    by (cases "fst (handler sample_builtins ?env)") simp
  have acc': "accepted ?all (JStr ''/tmp/upload_1'')"
    by (rule upload_request_accepted)
  have rf': "fs_readFile ?all (JStr ''/tmp/upload_1'') = Resolves (JStr ''t,cpu'')"
    by (simp add: upload_request_def)
  have cc': "Client_connect ?all = Resolves (JObj [])"
    by (simp add: upload_request_def)
  have q': "\<forall>i. 1 \<le> i \<and> i \<le> 12 \<longrightarrow> queued_outcome (client_predict ?all i (JStr ''t,cpu''))"
    by (simp add: upload_request_def always_def queued_status_queued)
  have two: "fst (handler sample_builtins ?all)
          = \<lparr> status = 202,
              body = JObj [(''queued'', JBool True),
                           (''message'', JStr ''Prediction queued, try again later'')] \<rparr>
        \<and> predicts (snd (handler sample_builtins ?all)) = 12"
    using submit_retries_while_queued [OF acc' rf' cc', of sample_builtins,
             THEN conjunct2, THEN conjunct1] q'
    by simp
  from one one' two acc show ?thesis by simp
qed

lemma try_block_unlinks: "unlinks (snd (try_block env initial)) = []"
proof -
  have p: "unlinks (snd (poll q a s)) = unlinks s" for q a s
    using poll_frame [of q a s] by simp
  show ?thesis
    by (simp add: try_block_def Let_def initial_def p split: outcome.splits)
qed

lemma try_block_path:
  assumes "req_method env = ''POST''"
    and "truthy (uploadedPath (snd (try_block env initial)))"
  shows "accepted env (uploadedPath (snd (try_block env initial)))"
proof -
  have p: "uploadedPath (snd (poll q a s)) = uploadedPath s" for q a s
    using poll_frame [of q a s] by simp
  show ?thesis
    using assms
    by (auto simp: try_block_def accepted_def parseForm_def Let_def initial_def p
             split: outcome.splits prod.splits if_splits)
qed

lemma try_block_accepted_path:
  assumes "accepted env path"
  shows "uploadedPath (snd (try_block env initial)) = path"
proof -
  have p: "uploadedPath (snd (poll q a s)) = uploadedPath s" for q a s
    using poll_frame [of q a s] by simp
  show ?thesis
    using try_block_accepted [OF assms]
    by (simp add: initial_def p split: outcome.splits)
qed

lemma handler_state:
  "req_method env = ''POST'' \<Longrightarrow>
   snd (handler B env) = finally_block (snd (try_block env initial))"
  by (simp add: handler_def split: prod.splits completion.splits)

text \<open>
  What the \<^verbatim>\<open>finally\<close> block does delete: when the handler ends, \<^verbatim>\<open>unlink\<close> has
  been called exactly once, on \<^verbatim>\<open>uploadedPath\<close>, if that variable holds a truthy path,
  and not at all otherwise. For a request that is accepted with path \<open>path\<close> this is one
  call on \<open>path\<close>, whatever reading the file, connecting and the calls of
  \<^verbatim>\<open>predict\<close> do.
\<close>

lemma selected_path_unlinked_once:
  "unlinks (snd (handler B env))
     = (if truthy (uploadedPath (snd (handler B env)))
        then [uploadedPath (snd (handler B env))] else [])
   \<and> (\<forall>path. accepted env path \<longrightarrow>
         uploadedPath (snd (handler B env)) = path \<and> unlinks (snd (handler B env)) = [path])
   \<and> ((\<forall>path. \<not> accepted env path) \<longrightarrow> unlinks (snd (handler B env)) = [])"
proof (cases "req_method env = ''POST''")
  case False
  then have "snd (handler B env) = initial" by (simp add: handler_def)
  moreover have "\<not> accepted env path" for path using False by (simp add: accepted_def)
  ultimately show ?thesis by (simp add: initial_def)
next
  case True
  let ?t = "snd (try_block env initial)"
  have st: "snd (handler B env) = finally_block ?t" by (rule handler_state [OF True])
  have a: "unlinks (finally_block ?t)
           = (if truthy (uploadedPath ?t) then [uploadedPath ?t] else [])"
    by (simp add: finally_block_def try_block_unlinks)
  have b: "uploadedPath (finally_block ?t) = path \<and> unlinks (finally_block ?t) = [path]"
    if "accepted env path" for path
  proof -
    have "uploadedPath ?t = path" by (rule try_block_accepted_path [OF that])
    moreover have "truthy path" using that by (auto simp: accepted_def)
    ultimately show ?thesis using a by simp
  qed
  have c: "unlinks (finally_block ?t) = []" if "\<forall>path. \<not> accepted env path"
    using that try_block_path [OF True] a by auto
  have d: "truthy path" if "accepted env path" for path
    using that by (auto simp: accepted_def)
  show ?thesis using st a b c d by auto
qed

text \<open>
  Claim C4. A \<^verbatim>\<open>POST\<close> whose form parses and whose \<^verbatim>\<open>files\<close> hold nothing under
  \<^verbatim>\<open>file\<close> and nothing under \<^verbatim>\<open>upload\<close> is answered 400 with
  \<^verbatim>\<open>{ error: "No file uploaded" }\<close>; no connection is opened, \<^verbatim>\<open>predict\<close> is never
  called and nothing is unlinked.
\<close>

theorem no_file_rejected_before_upstream:
  assumes "req_method env = ''POST''" "form_parse env = (err, fields_arg, files)"
    "\<not> truthy err" "nullish (opt_prop files ''file'')" "nullish (opt_prop files ''upload'')"
  shows "fst (handler B env)
           = \<lparr> status = 400, body = JObj [(''error'', JStr ''No file uploaded'')] \<rparr>
       \<and> connects (snd (handler B env)) = 0
       \<and> predicts (snd (handler B env)) = 0
       \<and> unlinks (snd (handler B env)) = []"
  using assms
  by (simp add: handler_def try_block_def parseForm_def uploaded_of_def coalesce_def
        finally_block_def initial_def)

lemma handler_final:
  assumes "accepted env path" "fs_readFile env path = Resolves buf"
    "Client_connect env = Resolves client" "k < 12"
    "\<forall>i. 1 \<le> i \<and> i \<le> k \<longrightarrow> queued_outcome (client_predict env i buf)"
    "client_predict env (k + 1) buf = Resolves r" "\<not> queued_result r"
  shows "fst (handler B env) = final_response r"
    and "predicts (snd (handler B env)) = k + 1"
    and "waits (snd (handler B env)) = k"
proof -
  let ?p = "\<lambda>n. client_predict env n buf"
  let ?s = "initial\<lparr>uploadedPath := path, connects := 1\<rparr>"
  let ?sk = "?s\<lparr>predicts := predicts ?s + k, waits := waits ?s + k\<rparr>"
  have "poll ?p 1 ?s = poll ?p (1 + k) ?sk"
    using assms(4,5) by (intro poll_skip) (auto simp: maxAttempts_def)
  moreover have "poll ?p (1 + k) ?sk
      = (Return (final_response r), ?sk\<lparr>predicts := predicts ?sk + 1\<rparr>)"
    using assms(4,6,7) by (intro poll_final) (auto simp: maxAttempts_def add.commute)
  ultimately have h: "handler B env
      = (final_response r, finally_block (?sk\<lparr>predicts := predicts ?sk + 1\<rparr>))"
    using handler_accepted [OF assms(1,2,3), of B] by simp
  show "fst (handler B env) = final_response r" using h by simp
  show "predicts (snd (handler B env)) = k + 1" using h by (simp add: initial_def)
  show "waits (snd (handler B env)) = k" using h by (simp add: initial_def)
qed





text \<open>
  Claim C5, as amended. When call \<open>k + 1\<close> of \<^verbatim>\<open>predict\<close>, after \<open>k < 12\<close> queued
  answers, returns a value \<open>r\<close> that is not the queued status, the handler answers 200.
  The body is \<^verbatim>\<open>r.data\<close>, unchanged, when that is truthy; otherwise \<open>r\<close> itself,
  unchanged, when \<open>r\<close> is neither \<^verbatim>\<open>null\<close> nor \<^verbatim>\<open>undefined\<close>; otherwise the
  placeholder \<^verbatim>\<open>{ message: "No result returned" }\<close>.
\<close>

theorem success_body_is_data_or_result:
  assumes "accepted env path" "fs_readFile env path = Resolves buf"
    "Client_connect env = Resolves client" "k < 12"
    "\<forall>i. 1 \<le> i \<and> i \<le> k \<longrightarrow> queued_outcome (client_predict env i buf)"
    "client_predict env (k + 1) buf = Resolves r" "\<not> queued_result r"
  shows "status (fst (handler B env)) = 200
       \<and> (truthy (opt_prop r ''data'') \<longrightarrow> body (fst (handler B env)) = js_get r ''data'')
       \<and> (\<not> truthy (opt_prop r ''data'') \<and> \<not> nullish r \<longrightarrow> body (fst (handler B env)) = r)
       \<and> (nullish r
            \<longrightarrow> body (fst (handler B env)) = JObj [(''message'', JStr ''No result returned'')])"
  using handler_final(1) [OF assms, where B = B]
  by (auto simp: final_response_def coalesce_def opt_prop_def)

lemma upload_request_fields [simp]:
  "fs_readFile (upload_request answers) p = Resolves (JStr ''t,cpu'')"
  "Client_connect (upload_request answers) = Resolves (JObj [])"
  "client_predict (upload_request answers) n buf = answers n"
  by (simp_all add: upload_request_def)

lemma array_index_zero [simp]: "array_index ''0'' = Some 0"
  by (simp add: array_index_def is_digit_def nat_of_digits_def digit_value_def)

lemma two_files_request_accepted:
  "accepted two_files_request (JStr ''/tmp/upload_a'')"
  by (simp add: accepted_def two_files_request_def uploaded_of_def opt_prop_def coalesce_def
        first_of_def path_of_def)

lemma array_index_path_names [simp]:
  "array_index ''filepath'' = None" "array_index ''filePath'' = None"
  "array_index ''path'' = None"
  by (simp_all add: array_index_def is_digit_def)

text \<open>
  Claim C2 asks that the temporary upload file is deleted on every exit path on which one
  was created. A \<^verbatim>\<open>POST\<close> whose only file sits under the field \<^verbatim>\<open>document\<close> has
  the file \<^verbatim>\<open>/tmp/upload_2\<close> stored by the parser; the handler answers 400 at line 33
  and never unlinks it. Of two files stored under \<^verbatim>\<open>file\<close> the handler, having
  answered 200, has unlinked the first only.
\<close>

theorem stored_upload_left_behind:
  "stored_paths other_field_request = [JStr ''/tmp/upload_2'']
   \<and> fst (handler sample_builtins other_field_request)
       = \<lparr> status = 400, body = JObj [(''error'', JStr ''No file uploaded'')] \<rparr>
   \<and> unlinks (snd (handler sample_builtins other_field_request)) = []
   \<and> stored_paths two_files_request = [JStr ''/tmp/upload_a'', JStr ''/tmp/upload_b'']
   \<and> fst (handler sample_builtins two_files_request)
       = \<lparr> status = 200, body = JArr [JNum 1] \<rparr>
   \<and> unlinks (snd (handler sample_builtins two_files_request)) = [JStr ''/tmp/upload_a'']"
proof -
  have s1: "stored_paths other_field_request = [JStr ''/tmp/upload_2'']"
    by (simp add: stored_paths_def other_field_request_def file_entries_def path_of_def
          coalesce_def)
  have r1: "fst (handler sample_builtins other_field_request)
       = \<lparr> status = 400, body = JObj [(''error'', JStr ''No file uploaded'')] \<rparr>"
    by (simp add: handler_def try_block_def parseForm_def other_field_request_def
          uploaded_of_def opt_prop_def coalesce_def)
  have no: "\<forall>path. \<not> accepted other_field_request path"
    by (simp add: accepted_def other_field_request_def uploaded_of_def opt_prop_def
          coalesce_def)
  have u1: "unlinks (snd (handler sample_builtins other_field_request)) = []"
    using selected_path_unlinked_once [of sample_builtins other_field_request] no by blast
  have s2: "stored_paths two_files_request = [JStr ''/tmp/upload_a'', JStr ''/tmp/upload_b'']"
    by (simp add: stored_paths_def two_files_request_def file_entries_def path_of_def
          coalesce_def)
  have nq: "\<not> queued_result (JObj [(''data'', JArr [JNum 1])])"
    by (simp add: queued_result_def)
  have "fst (handler sample_builtins two_files_request)
          = final_response (JObj [(''data'', JArr [JNum 1])])"
    using handler_final(1) [OF two_files_request_accepted, of "JStr ''t,cpu''" "JObj []" 0
            "JObj [(''data'', JArr [JNum 1])]" sample_builtins] nq
    by (simp add: two_files_request_def)
  then have r2: "fst (handler sample_builtins two_files_request)
       = \<lparr> status = 200, body = JArr [JNum 1] \<rparr>"
    by (simp add: final_response_def opt_prop_def)
  have u2: "unlinks (snd (handler sample_builtins two_files_request)) = [JStr ''/tmp/upload_a'']"
    using selected_path_unlinked_once [of sample_builtins two_files_request]
      two_files_request_accepted
    by blast
  from s1 r1 u1 s2 r2 u2 show ?thesis by blast
qed

theorem no_file_rejected_before_upstream_witness:
  "fst (handler sample_builtins other_field_request)
     = \<lparr> status = 400, body = JObj [(''error'', JStr ''No file uploaded'')] \<rparr>
   \<and> connects (snd (handler sample_builtins other_field_request)) = 0
   \<and> predicts (snd (handler sample_builtins other_field_request)) = 0"
proof -
  let ?files = "JObj [(''document'', JObj [(''filepath'', JStr ''/tmp/upload_2'')])]"
  have m: "req_method other_field_request = ''POST''"
    by (simp add: other_field_request_def)
  have f: "form_parse other_field_request = (JNull, JObj [], ?files)"
    by (simp add: other_field_request_def)
  have e: "\<not> truthy JNull" by simp
  have a: "nullish (opt_prop ?files ''file'')" by (simp add: opt_prop_def)
  have b: "nullish (opt_prop ?files ''upload'')" by (simp add: opt_prop_def)
  show ?thesis
    using no_file_rejected_before_upstream [OF m f e a b, of sample_builtins] by simp
qed


theorem success_body_is_data_or_result_witness:
  "accepted (upload_request eleven_queued) (JStr ''/tmp/upload_1'')
   \<and> status (fst (handler sample_builtins (upload_request eleven_queued))) = 200
   \<and> body (fst (handler sample_builtins (upload_request eleven_queued)))
       = JArr [JObj [(''classification'', JArr [JNum 1])]]"
proof -
  let ?env = "upload_request eleven_queued"
  let ?r = "JObj [(''data'', JArr [JObj [(''classification'', JArr [JNum 1])]])]"
  have acc: "accepted ?env (JStr ''/tmp/upload_1'')"
    by (rule upload_request_accepted)
  have rf: "fs_readFile ?env (JStr ''/tmp/upload_1'') = Resolves (JStr ''t,cpu'')"
    by simp
  have cc: "Client_connect ?env = Resolves (JObj [])"
    by simp
  have lt: "(11::nat) < 12" by simp
  have q: "\<forall>i. 1 \<le> i \<and> i \<le> 11 \<longrightarrow> queued_outcome (client_predict ?env i (JStr ''t,cpu''))"
    by (simp add: eleven_queued_def queued_status_queued)
  have fin: "client_predict ?env (11 + 1) (JStr ''t,cpu'') = Resolves ?r"
    by (simp add: eleven_queued_def)
  have nq: "\<not> queued_result ?r"
    by (simp add: queued_result_def)
  show ?thesis
    using success_body_is_data_or_result [OF acc rf cc lt q fin nq, of sample_builtins] acc
    by (simp add: opt_prop_def)
qed

lemma handler_first_answer:
  assumes "\<not> queued_result r"
  shows "fst (handler B (upload_request (always (Resolves r)))) = final_response r"
proof -
  let ?env = "upload_request (always (Resolves r))"
  have acc: "accepted ?env (JStr ''/tmp/upload_1'')"
    by (rule upload_request_accepted)
  show ?thesis
    using handler_final(1) [OF acc, of "JStr ''t,cpu''" "JObj []" 0 r B] assms
    by (simp add: always_def)
qed

text \<open>
  Claim C5 as stated fails: the body of a 200 answer is not always the raw payload. For
  the result \<^verbatim>\<open>null\<close> the body is the placeholder, which is neither the result nor its
  \<^verbatim>\<open>data\<close>; for \<^verbatim>\<open>{ data: [1], duration: 2 }\<close> the body is not the result; for
  \<^verbatim>\<open>{ data: 0, duration: 2 }\<close> the body is not the \<^verbatim>\<open>data\<close>.
\<close>

theorem success_body_not_always_raw_payload:
  "body (fst (handler sample_builtins (upload_request (always (Resolves JNull)))))
     = JObj [(''message'', JStr ''No result returned'')]
   \<and> body (fst (handler sample_builtins (upload_request (always (Resolves JNull))))) \<noteq> JNull
   \<and> body (fst (handler sample_builtins (upload_request (always (Resolves JNull)))))
       \<noteq> opt_prop JNull ''data''
   \<and> body (fst (handler sample_builtins (upload_request (always (Resolves
        (JObj [(''data'', JArr [JNum 1]), (''duration'', JNum 2)]))))))
       \<noteq> JObj [(''data'', JArr [JNum 1]), (''duration'', JNum 2)]
   \<and> body (fst (handler sample_builtins (upload_request (always (Resolves
        (JObj [(''data'', JNum 0), (''duration'', JNum 2)]))))))
       \<noteq> js_get (JObj [(''data'', JNum 0), (''duration'', JNum 2)]) ''data''"
proof -
  have a: "\<not> queued_result JNull" by (simp add: queued_result_def)
  have b: "\<not> queued_result (JObj [(''data'', JArr [JNum 1]), (''duration'', JNum 2)])"
    by (simp add: queued_result_def)
  have c: "\<not> queued_result (JObj [(''data'', JNum 0), (''duration'', JNum 2)])"
    by (simp add: queued_result_def)
  show ?thesis
    by (simp add: handler_first_answer [OF a] handler_first_answer [OF b]
          handler_first_answer [OF c] final_response_def opt_prop_def coalesce_def)
qed

lemma handler_second_answer:
  assumes "\<not> queued_result r"
  shows "fst (handler B (upload_request (queued_then r))) = final_response r"
proof -
  let ?env = "upload_request (queued_then r)"
  have acc: "accepted ?env (JStr ''/tmp/upload_1'')"
    by (rule upload_request_accepted)
  have q: "\<forall>i. 1 \<le> i \<and> i \<le> 1 \<longrightarrow> queued_outcome (client_predict ?env i (JStr ''t,cpu''))"
    by (simp add: queued_then_def queued_status_queued)
  show ?thesis
    using handler_final(1) [OF acc, of "JStr ''t,cpu''" "JObj []" 1 r B] assms q
    by (simp add: queued_then_def)
qed

text \<open>
  Claim C1 as stated fails where it says that the final result is returned. After one
  queued answer, the result \<^verbatim>\<open>{ data: [1], duration: 2 }\<close> is answered with the body
  \<^verbatim>\<open>[1]\<close>, not with the result; the result \<^verbatim>\<open>null\<close> with the placeholder, which is
  neither the result nor its \<^verbatim>\<open>data\<close>; and the result \<^verbatim>\<open>{ data: 0, duration: 2 }\<close>
  with the whole result, not with its \<^verbatim>\<open>data\<close>.
\<close>

theorem final_result_not_returned_as_is:
  "body (fst (handler sample_builtins (upload_request (queued_then
        (JObj [(''data'', JArr [JNum 1]), (''duration'', JNum 2)])))))
     = JArr [JNum 1]
   \<and> body (fst (handler sample_builtins (upload_request (queued_then
        (JObj [(''data'', JArr [JNum 1]), (''duration'', JNum 2)])))))
       \<noteq> JObj [(''data'', JArr [JNum 1]), (''duration'', JNum 2)]
   \<and> body (fst (handler sample_builtins (upload_request (queued_then JNull))))
       = JObj [(''message'', JStr ''No result returned'')]
   \<and> body (fst (handler sample_builtins (upload_request (queued_then JNull)))) \<noteq> JNull
   \<and> body (fst (handler sample_builtins (upload_request (queued_then JNull))))
       \<noteq> opt_prop JNull ''data''
   \<and> body (fst (handler sample_builtins (upload_request (queued_then
        (JObj [(''data'', JNum 0), (''duration'', JNum 2)])))))
       \<noteq> js_get (JObj [(''data'', JNum 0), (''duration'', JNum 2)]) ''data''"
proof -
  have a: "\<not> queued_result JNull" by (simp add: queued_result_def)
  have b: "\<not> queued_result (JObj [(''data'', JArr [JNum 1]), (''duration'', JNum 2)])"
    by (simp add: queued_result_def)
  have c: "\<not> queued_result (JObj [(''data'', JNum 0), (''duration'', JNum 2)])"
    by (simp add: queued_result_def)
  show ?thesis
    by (simp add: handler_second_answer [OF a] handler_second_answer [OF b]
          handler_second_answer [OF c] final_response_def opt_prop_def coalesce_def)
qed

section \<open>Properties of the confidence statistics\<close>

lemma filter_cong_set:
  "(\<And>x. x \<in> set xs \<Longrightarrow> P x = Q x) \<Longrightarrow> filter P xs = filter Q xs"
  by (induction xs) auto

lemma four_way_split:
  fixes cs :: "rat list"
  shows "length (filter (\<lambda>c. c \<ge> 0.8) cs)
       + length (filter (\<lambda>c. c \<ge> 0.6 \<and> c < 0.8) cs)
       + length (filter (\<lambda>c. c \<ge> 0.4 \<and> c < 0.6) cs)
       + length (filter (\<lambda>c. c < 0.4) cs) = length cs"
  by (induction cs) auto

lemma one_bucket:
  fixes c :: rat
  assumes "0 \<le> c" "c \<le> 1"
  shows "buckets_holding c = 1"
  using assms
  by (auto simp: buckets_holding_def in_High_def in_Medium_def in_Low_def in_Very_Low_def)

text \<open>
  Claim C7. For a list of confidences that all lie in \<open>[0, 1]\<close>, every value is in
  exactly one of High \<open>[0.8, 1]\<close>, Medium \<open>[0.6, 0.8)\<close>, Low \<open>[0.4, 0.6)\<close> and
  Very Low \<open>[0, 0.4)\<close>; the four counts the page computes are the numbers of values in
  these ranges and add up to the length of the list; and the confidences
  \<open>[0.9, 0.85, 0.7, 0.5, 0.2]\<close> give High 2, Medium 1, Low 1, Very Low 1.
\<close>

theorem confidence_bucketing_partition:
  assumes "\<forall>c \<in> set cs. 0 \<le> c \<and> c \<le> 1"
  shows "(\<forall>c \<in> set cs. buckets_holding c = 1)
       \<and> high (confidenceRanges cs) = length (filter in_High cs)
       \<and> medium (confidenceRanges cs) = length (filter in_Medium cs)
       \<and> low (confidenceRanges cs) = length (filter in_Low cs)
       \<and> very_low (confidenceRanges cs) = length (filter in_Very_Low cs)
       \<and> high (confidenceRanges cs) + medium (confidenceRanges cs)
           + low (confidenceRanges cs) + very_low (confidenceRanges cs) = length cs
       \<and> confidenceRanges [0.9, 0.85, 0.7, 0.5, 0.2]
           = \<lparr> high = 2, medium = 1, low = 1, very_low = 1 \<rparr>"
proof -
  have one: "\<forall>c \<in> set cs. buckets_holding c = 1"
    using assms one_bucket by blast
  have h: "filter (\<lambda>c. c \<ge> 0.8) cs = filter in_High cs"
    using assms by (intro filter_cong_set) (auto simp: in_High_def)
  have v: "filter (\<lambda>c. c < 0.4) cs = filter in_Very_Low cs"
    using assms by (intro filter_cong_set) (auto simp: in_Very_Low_def)
  have m: "filter (\<lambda>c. c \<ge> 0.6 \<and> c < 0.8) cs = filter in_Medium cs"
    by (intro filter_cong_set) (auto simp: in_Medium_def)
  have l: "filter (\<lambda>c. c \<ge> 0.4 \<and> c < 0.6) cs = filter in_Low cs"
    by (intro filter_cong_set) (auto simp: in_Low_def)
  have total: "high (confidenceRanges cs) + medium (confidenceRanges cs)
           + low (confidenceRanges cs) + very_low (confidenceRanges cs) = length cs"
    using four_way_split [of cs] by (simp add: confidenceRanges_def)
  have ex: "confidenceRanges [0.9, 0.85, 0.7, 0.5, 0.2]
           = \<lparr> high = 2, medium = 1, low = 1, very_low = 1 \<rparr>"
    by (simp add: confidenceRanges_def)
  show ?thesis
    using one h v m l total ex by (simp add: confidenceRanges_def)
qed

theorem confidence_bucketing_partition_witness:
  "list_all (\<lambda>c. 0 \<le> c \<and> c \<le> 1) [1, 0.8, 0.6, 0.4, 0 :: rat]
   \<and> confidenceRanges [1, 0.8, 0.6, 0.4, 0]
       = \<lparr> high = 2, medium = 1, low = 1, very_low = 1 \<rparr>
   \<and> length (filter in_High [1, 0.8, 0.6, 0.4, 0 :: rat]) = 2
   \<and> length (filter in_Very_Low [1, 0.8, 0.6, 0.4, 0 :: rat]) = 1"
proof -
  have h: "\<forall>c \<in> set [1, 0.8, 0.6, 0.4, 0 :: rat]. 0 \<le> c \<and> c \<le> 1"
    by simp
  have c: "confidenceRanges [1, 0.8, 0.6, 0.4, 0]
       = \<lparr> high = 2, medium = 1, low = 1, very_low = 1 \<rparr>"
    by (simp add: confidenceRanges_def)
  show ?thesis
    using h c confidence_bucketing_partition [OF h] by simp
qed

section \<open>Properties of the pages\<close>

subsection \<open>The frequency table\<close>

lemma bump_keys: "fst ` set (bump ps k) = insert k (fst ` set ps)"
  by (induction ps k rule: bump.induct) auto

lemma bump_distinct: "distinct (map fst ps) \<Longrightarrow> distinct (map fst (bump ps k))"
proof (induction ps k rule: bump.induct)
  case (1 k)
  then show ?case by simp
next
  case (2 k' n ps k)
  then show ?case using bump_keys [of ps k] by auto
qed

lemma bump_lookup:
  "map_of (bump ps k) k' =
     (if k' = k then Some (case map_of ps k of None \<Rightarrow> 1 | Some n \<Rightarrow> n + 1)
      else map_of ps k')"
  by (induction ps k rule: bump.induct) auto

lemma foldl_bump_keys:
  "fst ` set (foldl bump ps ks) = fst ` set ps \<union> set ks"
  by (induction ks arbitrary: ps) (simp_all add: bump_keys)

lemma foldl_bump_distinct:
  "distinct (map fst ps) \<Longrightarrow> distinct (map fst (foldl bump ps ks))"
  by (induction ks arbitrary: ps) (simp_all add: bump_distinct)

lemma foldl_bump_lookup:
  "map_of (foldl bump ps ks) k =
     (if k \<in> set ks
      then Some (count_list ks k + (case map_of ps k of None \<Rightarrow> 0 | Some n \<Rightarrow> n))
      else map_of ps k)"
proof (induction ks arbitrary: ps)
  case Nil
  then show ?case by simp
next
  case (Cons x xs)
  show ?case
    by (simp add: Cons.IH bump_lookup split: option.splits)
qed

lemma set_ordered_keys: "set (ordered_keys ks) = set ks"
  by (auto simp: ordered_keys_def)

lemma distinct_ordered_keys: "distinct ks \<Longrightarrow> distinct (ordered_keys ks)"
  by (auto simp: ordered_keys_def)


lemma count_list_map_inj:
  "inj_on f (insert x (set xs)) \<Longrightarrow> count_list (map f xs) (f x) = count_list xs x"
proof (induction xs)
  case Nil
  then show ?case by simp
next
  case (Cons y ys)
  have "inj_on f (insert x (set ys))"
    using Cons.prems by (rule inj_on_subset) auto
  moreover have "f y = f x \<longleftrightarrow> y = x"
    using Cons.prems by (auto simp: inj_on_def)
  ultimately show ?case using Cons.IH by simp
qed

lemma sum_list_count_list:
  "sum_list (map (count_list xs) (sorted_list_of_set (set xs))) = length xs"
proof -
  have "sum_list (map (count_list xs) (sorted_list_of_set (set xs)))
        = sum (count_list xs) (set (sorted_list_of_set (set xs)))"
    by (rule sum_list_distinct_conv_sum_set) simp
  also have "\<dots> = sum (count_list xs) (set xs)" by simp
  also have "\<dots> = length xs" by (rule sum_count_set) simp_all
  finally show ?thesis .
qed

lemma toFixed1_nearest:
  fixes x :: rat
  assumes "0 \<le> x"
  shows "toFixed1 x = decimal1 (nat \<lfloor>x * 10 + 1 / 2\<rfloor>)"
    and "\<bar>of_nat (nat \<lfloor>x * 10 + 1 / 2\<rfloor>) / 10 - x\<bar> \<le> 1 / 20"
proof -
  show "toFixed1 x = decimal1 (nat \<lfloor>x * 10 + 1 / 2\<rfloor>)"
    using assms by (simp add: toFixed1_def)
  define f where "f = \<lfloor>x * 10 + 1 / 2\<rfloor>"
  have nonneg: "0 \<le> f" using assms by (simp add: f_def)
  have n: "(of_nat (nat f) :: rat) = of_int f"
    using nonneg by simp
  have lo: "of_int f \<le> x * 10 + 1 / 2" unfolding f_def by (rule of_int_floor_le)
  have hi: "x * 10 + 1 / 2 < of_int f + 1" unfolding f_def by linarith
  have "of_int f / 10 - x \<le> 1 / 20" using lo by linarith
  moreover have "x - of_int f / 10 \<le> 1 / 20" using hi by linarith
  ultimately have "\<bar>of_int f / 10 - x\<bar> \<le> 1 / 20" by linarith
  then show "\<bar>of_nat (nat \<lfloor>x * 10 + 1 / 2\<rfloor>) / 10 - x\<bar> \<le> 1 / 20"
    using n by (simp add: f_def)
qed

lemma buildCounts_core:
  assumes rt: "\<forall>v \<in> set arr. String_toNumber B (Number_toString B v) = v"
  shows "map (String_toNumber B) (labels (buildCounts B arr)) = sorted_list_of_set (set arr)"
    and "labels (buildCounts B arr) = map (Number_toString B) (sorted_list_of_set (set arr))"
    and "label_values (buildCounts B arr)
           = map (\<lambda>v. Some (count_list arr v)) (sorted_list_of_set (set arr))"
proof -
  let ?S = "Number_toString B" and ?N = "String_toNumber B"
  let ?counts = "foldl bump [] (map ?S arr)"
  let ?labels = "sort_key ?N (ordered_keys (map fst ?counts))"
  let ?vs = "sorted_list_of_set (set arr)"
  have lab: "labels (buildCounts B arr) = ?labels"
    by (simp add: buildCounts_def Let_def)
  have keys: "set (map fst ?counts) = ?S ` set arr"
    using foldl_bump_keys [of "[]" "map ?S arr"] by simp
  have dist: "distinct (map fst ?counts)"
    by (rule foldl_bump_distinct) simp
  have set_labels: "set ?labels = ?S ` set arr"
    using keys by (simp add: set_ordered_keys)
  have dist_labels: "distinct ?labels"
    using dist by (simp add: distinct_ordered_keys)
  have inj: "inj_on ?N (?S ` set arr)"
  proof (rule inj_onI)
    fix a b assume "a \<in> ?S ` set arr" "b \<in> ?S ` set arr" "?N a = ?N b"
    then show "a = b" using rt by (metis imageE)
  qed
  have "sorted (map ?N ?labels)" by simp
  moreover have "distinct (map ?N ?labels)"
    using dist_labels inj set_labels by (simp add: distinct_map)
  moreover have "set (map ?N ?labels) = set arr"
    using set_labels rt by (auto simp: image_iff)
  ultimately have nums: "map ?N ?labels = ?vs"
    by (intro sorted_distinct_set_unique) simp_all
  show l1: "map ?N (labels (buildCounts B arr)) = ?vs"
    using nums lab by simp
  have rtl: "?S (?N l) = l" if "l \<in> set ?labels" for l
    using that set_labels rt by auto
  have "map (\<lambda>l. ?S (?N l)) ?labels = ?labels"
    by (rule map_idI) (rule rtl)
  then have "map ?S (map ?N ?labels) = ?labels"
    by (simp add: comp_def)
  then show l2: "labels (buildCounts B arr) = map ?S ?vs"
    using nums lab by simp
  have look: "map_of ?counts (?S v) = Some (count_list arr v)" if "v \<in> set arr" for v
  proof -
    have "inj_on ?S (insert v (set arr))"
    proof (rule inj_onI)
      fix a b assume "a \<in> insert v (set arr)" "b \<in> insert v (set arr)" "?S a = ?S b"
      then show "a = b" using rt that by (metis insert_iff)
    qed
    then have "count_list (map ?S arr) (?S v) = count_list arr v"
      by (rule count_list_map_inj)
    then show ?thesis using that by (simp add: foldl_bump_lookup)
  qed
  have "label_values (buildCounts B arr) = map (map_of ?counts) (map ?S ?vs)"
    using l2 lab by (simp add: buildCounts_def Let_def)
  also have "\<dots> = map (\<lambda>v. Some (count_list arr v)) ?vs"
    using look by simp
  finally show "label_values (buildCounts B arr) = map (\<lambda>v. Some (count_list arr v)) ?vs" .
qed

lemma rows_eq:
  assumes "labels c = map S vs" "label_values c = map (\<lambda>v. Some (f v)) vs"
  shows "rows c = map (\<lambda>v. (S v, f v, pct (f v) (total c))) vs"
proof (rule nth_equalityI)
  show "length (rows c) = length (map (\<lambda>v. (S v, f v, pct (f v) (total c))) vs)"
    using assms by (simp add: rows_def)
  fix i assume "i < length (rows c)"
  then have i: "i < length vs" using assms by (simp add: rows_def)
  then show "rows c ! i = map (\<lambda>v. (S v, f v, pct (f v) (total c))) vs ! i"
    using assms by (simp add: rows_def value_at_def)
qed

subsection \<open>Rounding of the percentage\<close>

lemma bits_bounds: "0 < n \<Longrightarrow> 2 ^ (bits n - 1) \<le> n \<and> n < 2 ^ bits n"
proof (induction n rule: bits.induct)
  case (1 n)
  show ?case
  proof (cases "n div 2 \<le> 0")
    case True
    then have "n = 1" using "1.prems" by auto
    then show ?thesis by (simp add: bits.simps)
  next
    case False
    then have IH: "2 ^ (bits (n div 2) - 1) \<le> n div 2 \<and> n div 2 < 2 ^ bits (n div 2)"
      using "1.IH" "1.prems" by simp
    have b: "bits n = Suc (bits (n div 2))" using "1.prems" by (subst bits.simps) simp
    have pos: "0 < bits (n div 2)" using False by (subst bits.simps) simp
    define m :: int where "m = 2 ^ (bits (n div 2) - 1)"
    have p2: "(2::int) ^ bits (n div 2) = 2 * m"
      using pos unfolding m_def by (cases "bits (n div 2)") simp_all
    have d: "2 * (n div 2) \<le> n" "n < 2 * (n div 2) + 2" by presburger+
    have "2 * m \<le> n" "n < 4 * m"
      using IH d unfolding p2 m_def [symmetric] by linarith+
    then show ?thesis unfolding b using p2 by simp
  qed
qed

lemma log2_floor_le:
  assumes "0 < x"
  shows "power_int 2 (log2_floor x) \<le> x"
proof -
  obtain p q where pq: "quotient_of x = (p, q)" by (cases "quotient_of x")
  have q: "0 < q" using pq by (rule quotient_of_denom_pos)
  have x: "x = of_int p / of_int q" using pq by (rule quotient_of_div)
  have p: "0 < p" using assms q unfolding x by (simp add: zero_less_divide_iff)
  define d where "d = int (bits p) - int (bits q)"
  show ?thesis
  proof (cases "power_int 2 d \<le> x")
    case True
    then show ?thesis by (simp add: log2_floor_def pq d_def Let_def)
  next
    case False
    have bp: "2 ^ (bits p - 1) \<le> p" and bq: "q < 2 ^ bits q"
      using bits_bounds [OF p] bits_bounds [OF q] by simp_all
    have pos: "0 < bits p" using p by (subst bits.simps) simp
    then have dd: "d - 1 = int (bits p - 1) - int (bits q)" by (simp add: d_def)
    have "power_int (2::rat) (d - 1) = 2 ^ (bits p - 1) / 2 ^ bits q"
      unfolding dd by (simp add: power_int_diff)
    also have "\<dots> \<le> of_int p / of_int q"
    proof -
      have "(of_int (2 ^ (bits p - 1)) :: rat) \<le> of_int p"
        using bp by (simp only: of_int_le_iff)
      then have A: "(2::rat) ^ (bits p - 1) \<le> of_int p" by simp
      have "(of_int q :: rat) \<le> of_int (2 ^ bits q)"
        using bq by (simp only: of_int_le_iff)
      then have C: "(of_int q :: rat) \<le> 2 ^ bits q" by simp
      have B: "(0::rat) < of_int q" using q by simp
      show ?thesis
        using A B C p by (intro frac_le) simp_all
    qed
    finally have "power_int 2 (d - 1) \<le> x" unfolding x .
    then show ?thesis using False by (simp add: log2_floor_def pq d_def Let_def)
  qed
qed

lemma round_even_err: "\<bar>of_int (round_even y) - y\<bar> \<le> 1 / 2"
proof -
  have "of_int \<lfloor>y\<rfloor> \<le> y" "y < of_int \<lfloor>y\<rfloor> + 1" by linarith+
  then show ?thesis
    by (auto simp: round_even_def Let_def abs_le_iff)
qed

lemma round_even_nonneg: "0 \<le> y \<Longrightarrow> 0 \<le> round_even y"
  by (auto simp: round_even_def Let_def)

lemma binary64_err:
  assumes "0 < x"
  shows "\<bar>binary64 x - x\<bar> \<le> x / 2 ^ 53" and "0 \<le> binary64 x"
proof -
  define s :: rat where "s = power_int 2 (log2_floor x - 52)"
  define R :: rat where "R = of_int (round_even (x / s))"
  have s: "0 < s" by (simp add: s_def)
  have b: "binary64 x = R * s"
    using assms by (simp add: binary64_def Let_def s_def R_def)
  have "s = power_int 2 (log2_floor x) / 2 ^ 52"
    by (simp add: s_def power_int_diff)
  also have "\<dots> \<le> x / 2 ^ 52"
    using log2_floor_le [OF assms] by (simp add: divide_right_mono)
  finally have sx: "s \<le> x / 2 ^ 52" .
  have "\<bar>R - x / s\<bar> \<le> 1 / 2" unfolding R_def by (rule round_even_err)
  then have "\<bar>R - x / s\<bar> * s \<le> 1 / 2 * s"
    using s by (intro mult_right_mono) simp_all
  moreover have "\<bar>R - x / s\<bar> * s = \<bar>R * s - x\<bar>"
  proof -
    have "\<bar>R - x / s\<bar> * s = \<bar>(R - x / s) * s\<bar>" using s by (simp add: abs_mult)
    also have "(R - x / s) * s = R * s - x" using s by (simp add: field_simps)
    finally show ?thesis .
  qed
  ultimately have "\<bar>binary64 x - x\<bar> \<le> s / 2" by (simp add: b)
  also have "\<dots> \<le> x / 2 ^ 53" using sx by simp
  finally show "\<bar>binary64 x - x\<bar> \<le> x / 2 ^ 53" .
  have "0 \<le> x / s" using assms s by simp
  then have "0 \<le> R" unfolding R_def using round_even_nonneg by simp
  then show "0 \<le> binary64 x" using s by (simp add: b)
qed

lemma binary64_0 [simp]: "binary64 0 = 0"
  by (simp add: binary64_def)

lemma percent_double_close:
  fixes v t :: nat
  assumes t: "0 < t" and vt: "v \<le> t"
  defines "X \<equiv> (of_nat v / of_nat t * 100 :: rat)"
  defines "y \<equiv> binary64 (binary64 (of_nat v / of_nat t) * 100)"
  shows "0 \<le> y" and "\<bar>y - X\<bar> \<le> 300 / 2 ^ 53"
proof -
  define x0 :: rat where "x0 = of_nat v / of_nat t"
  define a where "a = binary64 x0"
  have X: "X = 100 * x0" and y: "y = binary64 (a * 100)"
    by (simp_all add: X_def y_def x0_def a_def)
  have x01: "x0 \<le> 1" using t vt by (simp add: x0_def)
  show "0 \<le> y" and "\<bar>y - X\<bar> \<le> 300 / 2 ^ 53"
  proof -
    have both: "0 \<le> y \<and> \<bar>y - X\<bar> \<le> 300 / 2 ^ 53"
    proof (cases "v = 0")
      case True
      then show ?thesis by (simp add: X y a_def x0_def)
    next
      case False
      then have x0: "0 < x0" using t by (simp add: x0_def)
      have ea: "\<bar>a - x0\<bar> \<le> x0 / 2 ^ 53"
        unfolding a_def by (rule binary64_err(1) [OF x0])
      have "x0 / 2 ^ 53 < x0" using x0 by simp
      then have apos: "0 < a" using ea by linarith
      have aup: "a \<le> x0 + x0 / 2 ^ 53" using ea by linarith
      have a100: "0 < a * 100" using apos by simp
      have ey: "\<bar>y - a * 100\<bar> \<le> a * 100 / 2 ^ 53"
        unfolding y by (rule binary64_err(1) [OF a100])
      have y0: "0 \<le> y" unfolding y by (rule binary64_err(2) [OF a100])
      have "a \<le> 2" using aup x01 x0 by simp
      then have "a * 100 / 2 ^ 53 \<le> 200 / 2 ^ 53" by simp
      then have e1: "\<bar>y - a * 100\<bar> \<le> 200 / 2 ^ 53" using ey by linarith
      have "x0 / 2 ^ 53 \<le> 1 / 2 ^ 53" using x01 by (simp add: divide_right_mono)
      then have "\<bar>a - x0\<bar> \<le> 1 / 2 ^ 53" using ea by linarith
      then have "100 * \<bar>a - x0\<bar> \<le> 100 * (1 / 2 ^ 53)"
        by (intro mult_left_mono) simp_all
      moreover have "\<bar>a * 100 - X\<bar> = 100 * \<bar>a - x0\<bar>"
      proof -
        have "a * 100 - X = 100 * (a - x0)" unfolding X by (simp add: algebra_simps)
        then show ?thesis by (simp only: abs_mult)
      qed
      ultimately have e2: "\<bar>a * 100 - X\<bar> \<le> 100 / 2 ^ 53"
        by simp
      have "\<bar>y - X\<bar> \<le> \<bar>y - a * 100\<bar> + \<bar>a * 100 - X\<bar>" by linarith
      then have "\<bar>y - X\<bar> \<le> 300 / 2 ^ 53" using e1 e2 by linarith
      then show ?thesis using y0 by simp
    qed
    show "0 \<le> y" using both by simp
    show "\<bar>y - X\<bar> \<le> 300 / 2 ^ 53" using both by simp
  qed
qed

lemma percent_nearest:
  fixes v t :: nat
  assumes t: "0 < t" and vt: "v \<le> t" and small: "t < 2 ^ 32"
  defines "y \<equiv> binary64 (binary64 (of_nat v / of_nat t) * 100)"
  shows "\<bar>of_nat (nat \<lfloor>y * 10 + 1 / 2\<rfloor>) / 10 - of_nat v / of_nat t * 100\<bar> \<le> (1 / 20 :: rat)"
proof -
  define X :: rat where "X = of_nat v / of_nat t * 100"
  define n where "n = nat \<lfloor>y * 10 + 1 / 2\<rfloor>"
  have y0: "0 \<le> y" and close: "\<bar>y - X\<bar> \<le> 300 / 2 ^ 53"
    unfolding y_def X_def by (rule percent_double_close [OF t vt])+
  have fl: "0 \<le> \<lfloor>y * 10 + 1 / 2\<rfloor>" using y0 by simp
  have n: "(of_nat n :: rat) = of_int \<lfloor>y * 10 + 1 / 2\<rfloor>"
    unfolding n_def using fl by simp
  have "of_int \<lfloor>y * 10 + 1 / 2\<rfloor> \<le> y * 10 + 1 / 2"
       "y * 10 + 1 / 2 < of_int \<lfloor>y * 10 + 1 / 2\<rfloor> + 1" by linarith+
  then have ny: "\<bar>of_nat n / 10 - y\<bar> \<le> 1 / 20" unfolding n by linarith
  have nX: "\<bar>of_nat n / 10 - X\<bar> \<le> 1 / 20 + 300 / 2 ^ 53"
    using ny close by linarith
  define D :: int where "D = 2 * int t * int n - 2000 * int v"
  have tpos: "(0::rat) < of_nat t" using t by simp
  have DX: "(of_int D :: rat) = 20 * of_nat t * (of_nat n / 10 - X)"
    using tpos by (simp add: D_def X_def field_simps)
  have tb: "(of_nat t :: rat) \<le> 2 ^ 32"
  proof -
    have "(of_nat t :: rat) \<le> of_nat (2 ^ 32)" using small by (simp only: of_nat_le_iff)
    then show ?thesis by simp
  qed
  have "\<bar>of_int D :: rat\<bar> = 20 * of_nat t * \<bar>of_nat n / 10 - X\<bar>"
    unfolding DX using tpos by (simp add: abs_mult)
  also have "\<dots> \<le> 20 * of_nat t * (1 / 20 + 300 / 2 ^ 53)"
    using nX tpos by (intro mult_left_mono) simp_all
  also have "\<dots> = of_nat t + of_nat t * (6000 / 2 ^ 53)"
    by (simp add: algebra_simps)
  also have "\<dots> \<le> of_nat t + 2 ^ 32 * (6000 / 2 ^ 53)"
    using tb by (intro add_left_mono mult_right_mono) simp_all
  also have "\<dots> < of_nat t + 1" by simp
  finally have "\<bar>of_int D :: rat\<bar> < of_int (int t + 1)" by simp
  then have "\<bar>D\<bar> < int t + 1"
    by (metis of_int_abs of_int_less_iff)
  then have "\<bar>D\<bar> \<le> int t" by simp
  then have "(of_int \<bar>D\<bar> :: rat) \<le> of_int (int t)" by (simp only: of_int_le_iff)
  then have "\<bar>of_int D :: rat\<bar> \<le> of_nat t" by simp
  then have "20 * of_nat t * \<bar>of_nat n / 10 - X\<bar> \<le> of_nat t * 1"
    unfolding DX using tpos by (simp add: abs_mult)
  then have "of_nat t * (20 * \<bar>of_nat n / 10 - X\<bar>) \<le> of_nat t * 1"
    by (simp add: mult.assoc mult.left_commute)
  then have "20 * \<bar>of_nat n / 10 - X\<bar> \<le> 1"
    using tpos by (simp only: mult_le_cancel_left_pos)
  then show ?thesis unfolding n_def X_def by simp
qed

text \<open>
  Claim C6, as amended. Let \<^verbatim>\<open>arr\<close> be an array of numbers, each of which is read
  back from its own decimal text. The labels \<^verbatim>\<open>buildCounts\<close> returns denote exactly
  the distinct values of the array, in ascending numeric order, and are their decimal
  texts; the value beside each label is the number of times it occurs; the values add up to
  the length of the array, which is \<^verbatim>\<open>total\<close>; and each row shows the percentage
  \<^verbatim>\<open>pct count total\<close>, the text \<^verbatim>\<open>toFixed(1)\<close> prints of the binary64 number
  \<^verbatim>\<open>(count / total) * 100\<close>. For a count of at most the total and a total other than
  zero and below \<open>2\<^sup>3\<^sup>2\<close>, as the length of an array is, that text is a decimal with
  one fractional digit that is nearest to \<open>count / total * 100\<close>: it lies within \<open>1/20\<close>
  of it, and where two are equally near it can be the lower one. For a total of zero the
  text is \<^verbatim>\<open>"0.0"\<close>. The legacy page builds this table from the
  \<^verbatim>\<open>classification\<close> array of its result.
\<close>

theorem buildCounts_frequency_table:
  assumes "\<forall>v \<in> set arr. String_toNumber B (Number_toString B v) = v"
  shows "map (String_toNumber B) (labels (buildCounts B arr)) = sorted_list_of_set (set arr)
       \<and> labels (buildCounts B arr) = map (Number_toString B) (sorted_list_of_set (set arr))
       \<and> label_values (buildCounts B arr)
           = map (\<lambda>v. Some (count_list arr v)) (sorted_list_of_set (set arr))
       \<and> sum_list (map (\<lambda>(l, val, p). val) (rows (buildCounts B arr))) = length arr
       \<and> total (buildCounts B arr) = length arr
       \<and> rows (buildCounts B arr)
           = map (\<lambda>v. (Number_toString B v, count_list arr v,
                        pct (count_list arr v) (length arr)))
               (sorted_list_of_set (set arr))
       \<and> (\<forall>v. count_list arr v \<le> length arr)
       \<and> (\<forall>val tot. tot \<noteq> 0 \<and> val \<le> tot \<and> tot < 2 ^ 32 \<longrightarrow>
             (\<exists>n. pct val tot = decimal1 n
                \<and> \<bar>of_nat n / 10 - of_nat val / of_nat tot * 100\<bar> \<le> (1 / 20 :: rat)))
       \<and> (\<forall>val. pct val 0 = ''0.0'')
       \<and> classification B (Home_legacy (JObj [(''classification'', JArr (map JNum arr))]))
           = Some (buildCounts B arr)"
proof -
  let ?c = "buildCounts B arr"
  let ?vs = "sorted_list_of_set (set arr)"
  note core = buildCounts_core [OF assms]
  have tot: "total ?c = length arr" by (simp add: buildCounts_def Let_def)
  have r: "rows ?c = map (\<lambda>v. (Number_toString B v, count_list arr v,
                        pct (count_list arr v) (length arr))) ?vs"
    using rows_eq [OF core(2) core(3)] tot by simp
  have s: "sum_list (map (\<lambda>(l, val, p). val) (rows ?c)) = length arr"
    using sum_list_count_list [of arr] by (simp add: r comp_def)
  have cl: "count_list arr v \<le> length arr" for v
    by (rule count_le_length)
  have p: "\<exists>n. pct val tot = decimal1 n
                \<and> \<bar>of_nat n / 10 - of_nat val / of_nat tot * 100\<bar> \<le> (1 / 20 :: rat)"
    if "tot \<noteq> 0 \<and> val \<le> tot \<and> tot < 2 ^ 32" for val tot :: nat
  proof -
    define y where "y = binary64 (binary64 (of_nat val / of_nat tot) * 100)"
    have t0: "0 < tot" and vt: "val \<le> tot" and sm: "tot < 2 ^ 32" using that by simp_all
    have y0: "0 \<le> y" unfolding y_def by (rule percent_double_close(1) [OF t0 vt])
    have "pct val tot = toFixed1 y" using t0 by (simp add: pct_def y_def)
    also have "\<dots> = decimal1 (nat \<lfloor>y * 10 + 1 / 2\<rfloor>)"
      by (rule toFixed1_nearest(1) [OF y0])
    finally have "pct val tot = decimal1 (nat \<lfloor>y * 10 + 1 / 2\<rfloor>)" .
    moreover have "\<bar>of_nat (nat \<lfloor>y * 10 + 1 / 2\<rfloor>) / 10 - of_nat val / of_nat tot * 100\<bar>
                   \<le> (1 / 20 :: rat)"
      unfolding y_def by (rule percent_nearest [OF t0 vt sm])
    ultimately show ?thesis by blast
  qed
  have z: "pct val 0 = ''0.0''" for val by (simp add: pct_def)
  have "those (map as_number (map JNum arr)) = Some arr"
    by (induction arr) simp_all
  then have k: "classification B (Home_legacy (JObj [(''classification'', JArr (map JNum arr))]))
           = Some (buildCounts B arr)"
    by (simp add: classification_def Home_legacy_def legacy_output_def legacy_read_def
          coalesce_def opt_prop_def)
  have P: "\<forall>val tot. tot \<noteq> 0 \<and> val \<le> tot \<and> tot < 2 ^ 32 \<longrightarrow>
             (\<exists>n. pct val tot = decimal1 n
                \<and> \<bar>of_nat n / 10 - of_nat val / of_nat tot * 100\<bar> \<le> (1 / 20 :: rat))"
    using p by blast
  from core tot r s cl P z k show ?thesis by (intro conjI allI) blast+
qed

text \<open>
  Claim C6 as stated fails for the percentage. For 23 of 80 the exact percentage is
  28.75, which rounds to 28.8 to one decimal place, a half rounded up or to even; the page
  prints 28.7, since the binary64 product is below 28.75. The same holds for 41 of 80 and
  for 51 of 80.
\<close>

theorem percentage_counterexample:
  "pct 23 80 = ''28.7'' \<and> spec_percentage 23 80 = ''28.8''
   \<and> round_even (of_nat 23 / of_nat 80 * 100 * 10) = 288
   \<and> binary64 (binary64 (of_nat 23 / of_nat 80) * 100) < 2875 / 100
   \<and> pct 41 80 = ''51.2'' \<and> spec_percentage 41 80 = ''51.3''
   \<and> pct 51 80 = ''63.7'' \<and> spec_percentage 51 80 = ''63.8''"
  by code_simp

theorem buildCounts_frequency_table_witness:
  "list_all (\<lambda>v. String_toNumber sample_builtins (Number_toString sample_builtins v) = v)
     [2, 10, 2, 1 :: rat]
   \<and> labels (buildCounts sample_builtins [2, 10, 2, 1]) = [''1'', ''2'', ''10'']
   \<and> rows (buildCounts sample_builtins [2, 10, 2, 1])
       = [(''1'', 1, ''25.0''), (''2'', 2, ''50.0''), (''10'', 1, ''25.0'')]
   \<and> total (buildCounts sample_builtins [2, 10, 2, 1]) = 4"
proof -
  have h: "\<forall>v \<in> set [2, 10, 2, 1 :: rat].
             String_toNumber sample_builtins (Number_toString sample_builtins v) = v"
    by code_simp
  have l: "list_all (\<lambda>v. String_toNumber sample_builtins (Number_toString sample_builtins v) = v)
     [2, 10, 2, 1 :: rat]"
    by code_simp
  have e1: "map (Number_toString sample_builtins) (sorted_list_of_set (set [2, 10, 2, 1 :: rat]))
            = [''1'', ''2'', ''10'']"
    by code_simp
  have e2: "map (\<lambda>v. (Number_toString sample_builtins v, count_list [2, 10, 2, 1 :: rat] v,
                        pct (count_list [2, 10, 2, 1 :: rat] v) (length [2, 10, 2, 1 :: rat])))
               (sorted_list_of_set (set [2, 10, 2, 1 :: rat]))
            = [(''1'', 1, ''25.0''), (''2'', 2, ''50.0''), (''10'', 1, ''25.0'')]"
    by code_simp
  note T = buildCounts_frequency_table [OF h]
  have a: "labels (buildCounts sample_builtins [2, 10, 2, 1]) = [''1'', ''2'', ''10'']"
    using T [THEN conjunct2, THEN conjunct1] e1 by (rule trans)
  have b: "rows (buildCounts sample_builtins [2, 10, 2, 1])
       = [(''1'', 1, ''25.0''), (''2'', 2, ''50.0''), (''10'', 1, ''25.0'')]"
  proof -
    note T [THEN conjunct2, THEN conjunct2, THEN conjunct2, THEN conjunct2, THEN conjunct2,
             THEN conjunct1]
    also note e2
    finally show ?thesis .
  qed
  have c: "total (buildCounts sample_builtins [2, 10, 2, 1]) = 4"
    using T [THEN conjunct2, THEN conjunct2, THEN conjunct2, THEN conjunct2, THEN conjunct1]
    by simp
  show ?thesis
    using l a b c by blast
qed

subsection \<open>Confidence values of the preview\<close>

lemma map_confidence_present:
  "\<forall>p \<in> set ps. \<not> nullish p \<Longrightarrow>
   map_confidence ps = Inr (map (\<lambda>p. coalesce (js_get p ''confidence'') (JNum 0)) ps)"
  by (induction ps) (simp_all add: read_prop_def)

lemma map_confidence_nullish:
  "p \<in> set ps \<Longrightarrow> nullish p \<Longrightarrow> map_confidence ps = Inl TypeError"
  by (induction ps) (auto simp: read_prop_def split: sum.splits)

lemma foldl_plus: "foldl (\<lambda>a b. a + b) a cs = a + sum_list (cs :: rat list)"
  by (induction cs arbitrary: a) simp_all

lemma reduce_sum_sum_list: "reduce_sum cs = sum_list cs"
  by (simp add: reduce_sum_def foldl_plus)

lemma those_numbers:
  assumes "\<forall>p \<in> set ps. nullish (js_get p ''confidence'') \<or> as_number (js_get p ''confidence'') \<noteq> None"
  shows "those (map as_number (map (\<lambda>p. coalesce (js_get p ''confidence'') (JNum 0)) ps))
         = Some (map (\<lambda>p. case js_get p ''confidence'' of JNum c \<Rightarrow> c | _ \<Rightarrow> 0) ps)"
  using assms
proof (induction ps)
  case Nil
  then show ?case by simp
next
  case (Cons p ps)
  then have IH: "those (map as_number (map (\<lambda>p. coalesce (js_get p ''confidence'') (JNum 0)) ps))
         = Some (map (\<lambda>p. case js_get p ''confidence'' of JNum c \<Rightarrow> c | _ \<Rightarrow> 0) ps)"
    by simp
  have "nullish (js_get p ''confidence'') \<or> as_number (js_get p ''confidence'') \<noteq> None"
    using Cons.prems by simp
  then show ?case
    using IH by (cases "js_get p ''confidence''") (simp_all add: coalesce_def)
qed

lemma sum_contributions:
  "sum_list (map (\<lambda>p. case js_get p ''confidence'' of JNum c \<Rightarrow> c | _ \<Rightarrow> 0) ps)
         = sum_list (given_confidences ps)"
  by (induction ps) (simp_all add: given_confidences_def split: jsval.splits)

lemma length_contributions:
  assumes "\<forall>p \<in> set ps. nullish (js_get p ''confidence'') \<or> as_number (js_get p ''confidence'') \<noteq> None"
  shows "length ps = missing_confidences ps + length (given_confidences ps)"
  using assms
proof (induction ps)
  case Nil
  then show ?case by (simp add: missing_confidences_def given_confidences_def)
next
  case (Cons p ps)
  have "nullish (js_get p ''confidence'') \<or> as_number (js_get p ''confidence'') \<noteq> None"
    using Cons.prems by simp
  then show ?case
    using Cons by (cases "js_get p ''confidence''")
      (simp_all add: missing_confidences_def given_confidences_def)
qed

lemma filter_contributions:
  assumes "\<forall>p \<in> set ps. nullish (js_get p ''confidence'') \<or> as_number (js_get p ''confidence'') \<noteq> None"
  shows "length (filter P (map (\<lambda>p. case js_get p ''confidence'' of JNum c \<Rightarrow> c | _ \<Rightarrow> 0) ps))
         = (if P 0 then missing_confidences ps else 0) + length (filter P (given_confidences ps))"
  using assms
proof (induction ps)
  case Nil
  then show ?case by (simp add: missing_confidences_def given_confidences_def)
next
  case (Cons p ps)
  have "nullish (js_get p ''confidence'') \<or> as_number (js_get p ''confidence'') \<noteq> None"
    using Cons.prems by simp
  then show ?case
    using Cons by (cases "js_get p ''confidence''")
      (simp_all add: missing_confidences_def given_confidences_def)
qed


lemma rich_read_view:
  assumes "\<not> nullish output"
    and "js_get output ''predictions_preview'' = JArr ps"
    and "\<forall>p \<in> set ps. \<not> nullish p"
  shows "\<exists>v. rich_read output = Inr (RichView v)
           \<and> predictionsPreview v = ps
           \<and> confidenceValues v = map (\<lambda>p. coalesce (js_get p ''confidence'') (JNum 0)) ps
           \<and> avgConfidence_view v = map_option avgConfidence (those (map as_number (confidenceValues v)))
           \<and> confidenceRanges_view v
               = map_option confidenceRanges (those (map as_number (confidenceValues v)))"
  using assms by (simp add: rich_read_def Let_def map_confidence_present)

lemma confidence_defaults:
  assumes "js_get (coalesce result (JObj [])) ''predictions_preview'' = JArr ps"
    and "\<forall>p \<in> set ps. \<not> nullish p"
    and "\<forall>p \<in> set ps. nullish (js_get p ''confidence'')
                       \<or> as_number (js_get p ''confidence'') \<noteq> None"
  shows "\<exists>v r. Home_rich result = Inr (RichView v)
       \<and> confidenceValues v
           = map (\<lambda>p. if nullish (js_get p ''confidence'') then JNum 0
                       else js_get p ''confidence'') ps
       \<and> avgConfidence_view v
           = Some (if ps = [] then 0
                   else sum_list (given_confidences ps) / of_nat (length ps))
       \<and> length ps = missing_confidences ps + length (given_confidences ps)
       \<and> confidenceRanges_view v = Some r
       \<and> very_low r
           = missing_confidences ps + length (filter (\<lambda>c. c < 0.4) (given_confidences ps))
       \<and> low r = length (filter (\<lambda>c. c \<ge> 0.4 \<and> c < 0.6) (given_confidences ps))
       \<and> medium r = length (filter (\<lambda>c. c \<ge> 0.6 \<and> c < 0.8) (given_confidences ps))
       \<and> high r = length (filter (\<lambda>c. c \<ge> 0.8) (given_confidences ps))"
proof -
  let ?num = "\<lambda>p. case js_get p ''confidence'' of JNum c \<Rightarrow> c | _ \<Rightarrow> 0"
  have nn: "\<not> nullish (coalesce result (JObj []))"
    by (simp add: coalesce_def)
  from rich_read_view [OF nn assms(1,2)] obtain v where
    v: "rich_read (coalesce result (JObj [])) = Inr (RichView v)"
    and cv: "confidenceValues v = map (\<lambda>p. coalesce (js_get p ''confidence'') (JNum 0)) ps"
    and av: "avgConfidence_view v
               = map_option avgConfidence (those (map as_number (confidenceValues v)))"
    and rv: "confidenceRanges_view v
               = map_option confidenceRanges (those (map as_number (confidenceValues v)))"
    by blast
  have th: "those (map as_number (confidenceValues v)) = Some (map ?num ps)"
    unfolding cv by (rule those_numbers [OF assms(3)])
  have a: "avgConfidence_view v
           = Some (if ps = [] then 0
                   else sum_list (given_confidences ps) / of_nat (length ps))"
    by (simp add: av th avgConfidence_def reduce_sum_sum_list sum_contributions)
  have r: "confidenceRanges_view v = Some (confidenceRanges (map ?num ps))"
    by (simp add: rv th)
  have f: "length (filter P (map ?num ps))
         = (if P 0 then missing_confidences ps else 0) + length (filter P (given_confidences ps))"
    for P
    by (rule filter_contributions [OF assms(3)])
  have c: "confidenceValues v
           = map (\<lambda>p. if nullish (js_get p ''confidence'') then JNum 0
                       else js_get p ''confidence'') ps"
    by (simp add: cv coalesce_def)
  have vl: "very_low (confidenceRanges (map ?num ps))
           = missing_confidences ps + length (filter (\<lambda>c. c < 0.4) (given_confidences ps))"
    using f [of "\<lambda>c. c < 0.4"] by (simp add: confidenceRanges_def)
  have lo: "low (confidenceRanges (map ?num ps))
           = length (filter (\<lambda>c. c \<ge> 0.4 \<and> c < 0.6) (given_confidences ps))"
    using f [of "\<lambda>c. c \<ge> 0.4 \<and> c < 0.6"] by (simp add: confidenceRanges_def)
  have me: "medium (confidenceRanges (map ?num ps))
           = length (filter (\<lambda>c. c \<ge> 0.6 \<and> c < 0.8) (given_confidences ps))"
    using f [of "\<lambda>c. c \<ge> 0.6 \<and> c < 0.8"] by (simp add: confidenceRanges_def)
  have hi: "high (confidenceRanges (map ?num ps))
           = length (filter (\<lambda>c. c \<ge> 0.8) (given_confidences ps))"
    using f [of "\<lambda>c. c \<ge> 0.8"] by (simp add: confidenceRanges_def)
  have h: "Home_rich result = Inr (RichView v)"
    using v by (simp add: Home_rich_def)
  from h c a length_contributions [OF assms(3)] r vl lo me hi show ?thesis
    by blast
qed

lemma no_preview_array:
  assumes "\<not> isArray (js_get (coalesce result (JObj [])) ''predictions_preview'')"
  shows "\<exists>v. Home_rich result = Inr (RichView v) \<and> predictionsPreview v = []
           \<and> confidenceValues v = [] \<and> avgConfidence_view v = Some 0"
proof -
  have "\<not> nullish (coalesce result (JObj []))" by (simp add: coalesce_def)
  then show ?thesis
    using assms by (simp add: Home_rich_def rich_read_def Let_def avgConfidence_def)
qed

text \<open>
  Claim C10. Let the preview be an array of entries, none of them \<^verbatim>\<open>null\<close> or
  \<^verbatim>\<open>undefined\<close>, whose \<^verbatim>\<open>confidence\<close> is a number, absent or \<^verbatim>\<open>null\<close>. The
  page takes 0 for each entry without a confidence: the average is the sum of the given
  confidences divided by the number of all entries, those without one included; the Very
  Low count holds every entry without a confidence beside the given confidences below 0.4,
  and the other three counts hold given confidences only. The average is 0 for an empty
  preview, and also where the result has no preview array.
\<close>

theorem missing_confidence_counts_as_zero:
  "(\<forall>ps. js_get (coalesce result (JObj [])) ''predictions_preview'' = JArr ps
          \<and> (\<forall>p \<in> set ps. \<not> nullish p)
          \<and> (\<forall>p \<in> set ps. nullish (js_get p ''confidence'')
                             \<or> as_number (js_get p ''confidence'') \<noteq> None)
        \<longrightarrow> (\<exists>v r. Home_rich result = Inr (RichView v)
               \<and> confidenceValues v
                   = map (\<lambda>p. if nullish (js_get p ''confidence'') then JNum 0
                               else js_get p ''confidence'') ps
               \<and> avgConfidence_view v
                   = Some (if ps = [] then 0
                           else sum_list (given_confidences ps) / of_nat (length ps))
               \<and> length ps = missing_confidences ps + length (given_confidences ps)
               \<and> confidenceRanges_view v = Some r
               \<and> very_low r
                   = missing_confidences ps
                     + length (filter (\<lambda>c. c < 0.4) (given_confidences ps))
               \<and> low r = length (filter (\<lambda>c. c \<ge> 0.4 \<and> c < 0.6) (given_confidences ps))
               \<and> medium r = length (filter (\<lambda>c. c \<ge> 0.6 \<and> c < 0.8) (given_confidences ps))
               \<and> high r = length (filter (\<lambda>c. c \<ge> 0.8) (given_confidences ps))))
   \<and> (\<not> isArray (js_get (coalesce result (JObj [])) ''predictions_preview'')
        \<longrightarrow> (\<exists>v. Home_rich result = Inr (RichView v) \<and> predictionsPreview v = []
               \<and> confidenceValues v = [] \<and> avgConfidence_view v = Some 0))"
  using confidence_defaults [of result] no_preview_array [of result]
  by (intro conjI allI impI) blast+

text \<open>
  Claim C9 asks that the derivation never fails. On the result
  \<^verbatim>\<open>{ predictions_preview: [null] }\<close> the rich page throws a \<^verbatim>\<open>TypeError\<close> at
  line 79, where \<^verbatim>\<open>p.confidence\<close> is read off the entry \<^verbatim>\<open>null\<close>.
\<close>

theorem null_preview_entry_throws:
  "Home_rich (JObj [(''predictions_preview'', JArr [JNull])]) = Inl TypeError"
  by (simp add: Home_rich_def rich_read_def coalesce_def read_prop_def)

subsection \<open>Shapes of the result\<close>

lemma legacy_read_default: "legacy_read (coalesce x (JObj [])) = legacy_read x"
  by (cases x) (simp_all add: legacy_read_def coalesce_def opt_prop_def)

lemma summary_key_object: "js_in ''summary'' v \<Longrightarrow> \<exists>ps. v = JObj ps"
  by (cases v) (simp_all add: array_index_def is_digit_def split: option.splits)

text \<open>
  Claim C8, as amended. The shape is never detected from a \<^verbatim>\<open>summary\<close> key. The
  legacy page takes element 0 of an array result and always reads the flat
  \<^verbatim>\<open>classification\<close> and \<^verbatim>\<open>clusters\<close> arrays; it agrees with the detection the
  specification describes whenever the output has no \<^verbatim>\<open>summary\<close> key. The rich page
  always reads the rich fields; it agrees with that detection whenever the result is not
  an array and has a \<^verbatim>\<open>summary\<close> key.
\<close>

theorem shape_handling_of_the_two_pages:
  "(\<not> js_in ''summary'' (if isArray result then js_get result ''0'' else result)
      \<longrightarrow> Inr (Home_legacy result) = spec_deriveViewModel result)
   \<and> (\<not> isArray result \<and> js_in ''summary'' result
      \<longrightarrow> Home_rich result = spec_deriveViewModel result)
   \<and> (\<exists>c k. Home_legacy result = LegacyView c k)
   \<and> (\<forall>v. Home_rich result = Inr v \<longrightarrow> (\<exists>r. v = RichView r))"
proof -
  have a: "Inr (Home_legacy result) = spec_deriveViewModel result"
    if "\<not> js_in ''summary'' (if isArray result then js_get result ''0'' else result)"
    using that
    by (simp add: Home_legacy_def legacy_output_def spec_deriveViewModel_def
          legacy_read_default Let_def)
  have b: "Home_rich result = spec_deriveViewModel result"
    if "\<not> isArray result \<and> js_in ''summary'' result"
  proof -
    have "\<exists>ps. result = JObj ps" using that summary_key_object [of result] by simp
    then obtain ps where "result = JObj ps" by blast
    then show ?thesis
      using that by (simp add: Home_rich_def spec_deriveViewModel_def coalesce_def)
  qed
  have c: "\<exists>c k. Home_legacy result = LegacyView c k"
    by (simp add: Home_legacy_def legacy_read_def)
  have d: "\<exists>r. v = RichView r" if "Home_rich result = Inr v" for v
    using that
    by (auto simp: Home_rich_def rich_read_def Let_def split: if_splits sum.splits)
  show ?thesis using a b c d by blast
qed

lemma array_index_names [simp]:
  "array_index ''summary'' = None" "array_index ''cluster_profiles'' = None"
  "array_index ''predictions_preview'' = None" "array_index ''recommendation'' = None"
  "array_index ''classification'' = None" "array_index ''clusters'' = None"
  "array_index ''0'' = Some 0"
  by (simp_all add: array_index_def is_digit_def nat_of_digits_def digit_value_def)

lemma ordered_keys_Nil [simp]: "ordered_keys [] = []"
  by (simp add: ordered_keys_def)

text \<open>
  Claim C8 as stated fails on both pages. For \<^verbatim>\<open>[{ summary: { total_windows: 5 } }]\<close>
  the detection described takes element 0 and reads it as the rich shape; the legacy page
  reads it as the legacy shape and the rich page reads the array itself. For
  \<^verbatim>\<open>{ summary: {}, classification: [1] }\<close> the legacy page still reads the legacy
  shape, and for \<^verbatim>\<open>{ classification: [1] }\<close> the rich page still reads the rich one.
\<close>

theorem shape_detection_counterexample:
  "Inr (Home_legacy (JArr [JObj [(''summary'', JObj [(''total_windows'', JNum 5)])]]))
     \<noteq> spec_deriveViewModel (JArr [JObj [(''summary'', JObj [(''total_windows'', JNum 5)])]])
   \<and> Home_rich (JArr [JObj [(''summary'', JObj [(''total_windows'', JNum 5)])]])
     \<noteq> spec_deriveViewModel (JArr [JObj [(''summary'', JObj [(''total_windows'', JNum 5)])]])
   \<and> Inr (Home_legacy (JObj [(''summary'', JObj []), (''classification'', JArr [JNum 1])]))
     \<noteq> spec_deriveViewModel (JObj [(''summary'', JObj []), (''classification'', JArr [JNum 1])])
   \<and> Home_rich (JObj [(''classification'', JArr [JNum 1])])
     \<noteq> spec_deriveViewModel (JObj [(''classification'', JArr [JNum 1])])"
proof -
  let ?r1 = "JArr [JObj [(''summary'', JObj [(''total_windows'', JNum 5)])]]"
  let ?r2 = "JObj [(''summary'', JObj []), (''classification'', JArr [JNum 1])]"
  let ?r3 = "JObj [(''classification'', JArr [JNum 1])]"
  have l1: "Home_legacy ?r1 = LegacyView [] []"
    by (simp add: Home_legacy_def legacy_output_def legacy_read_def coalesce_def opt_prop_def)
  have s1: "\<exists>r. spec_deriveViewModel ?r1 = Inr (RichView r) \<and> totalWindows r = JNum 5"
    by (simp add: spec_deriveViewModel_def rich_read_def coalesce_def Let_def)
  have h1: "\<exists>r. Home_rich ?r1 = Inr (RichView r) \<and> totalWindows r = JNum 0"
    by (simp add: Home_rich_def rich_read_def coalesce_def Let_def)
  have l2: "Home_legacy ?r2 = LegacyView [JNum 1] []"
    by (simp add: Home_legacy_def legacy_output_def legacy_read_def coalesce_def opt_prop_def)
  have s2: "\<exists>r. spec_deriveViewModel ?r2 = Inr (RichView r)"
    by (simp add: spec_deriveViewModel_def rich_read_def coalesce_def Let_def)
  have h3: "\<exists>r. Home_rich ?r3 = Inr (RichView r)"
    by (simp add: Home_rich_def rich_read_def coalesce_def Let_def)
  have s3: "spec_deriveViewModel ?r3 = Inr (LegacyView [JNum 1] [])"
    by (simp add: spec_deriveViewModel_def legacy_read_def opt_prop_def Let_def)
  have a: "Inr (Home_legacy ?r1) \<noteq> spec_deriveViewModel ?r1"
    using l1 s1 by auto
  have b: "Home_rich ?r1 \<noteq> spec_deriveViewModel ?r1"
    using h1 s1 by auto
  have c: "Inr (Home_legacy ?r2) \<noteq> spec_deriveViewModel ?r2"
    using l2 s2 by auto
  have d: "Home_rich ?r3 \<noteq> spec_deriveViewModel ?r3"
    using h3 s3 by auto
  from a b c d show ?thesis by blast
qed

theorem shape_handling_of_the_two_pages_witness:
  "\<not> isArray (JObj [(''summary'', JObj [(''total_windows'', JNum 5)])])
   \<and> js_in ''summary'' (JObj [(''summary'', JObj [(''total_windows'', JNum 5)])])
   \<and> Home_rich (JObj [(''summary'', JObj [(''total_windows'', JNum 5)])])
       = spec_deriveViewModel (JObj [(''summary'', JObj [(''total_windows'', JNum 5)])])
   \<and> Inr (Home_legacy (JArr [JObj [(''classification'', JArr [JNum 1, JNum 0])]]))
       = spec_deriveViewModel (JArr [JObj [(''classification'', JArr [JNum 1, JNum 0])]])
   \<and> Home_legacy (JArr [JObj [(''classification'', JArr [JNum 1, JNum 0])]])
       = LegacyView [JNum 1, JNum 0] []"
proof -
  let ?rich = "JObj [(''summary'', JObj [(''total_windows'', JNum 5)])]"
  let ?legacy = "JArr [JObj [(''classification'', JArr [JNum 1, JNum 0])]]"
  have p: "\<not> isArray ?rich \<and> js_in ''summary'' ?rich" by simp
  have q: "\<not> js_in ''summary'' (if isArray ?legacy then js_get ?legacy ''0'' else ?legacy)"
    by simp
  have e: "Home_legacy ?legacy = LegacyView [JNum 1, JNum 0] []"
    by (simp add: Home_legacy_def legacy_output_def legacy_read_def coalesce_def opt_prop_def)
  have "Home_rich ?rich = spec_deriveViewModel ?rich"
    using shape_handling_of_the_two_pages [of ?rich] p by blast
  moreover have "Inr (Home_legacy ?legacy) = spec_deriveViewModel ?legacy"
    using shape_handling_of_the_two_pages [of ?legacy] q by blast
  ultimately show ?thesis using p e by blast
qed

theorem missing_confidence_counts_as_zero_witness:
  "\<exists>v r. Home_rich (JObj [(''predictions_preview'',
             JArr [JObj [(''confidence'', JNum 0.9)], JObj [(''window_id'', JNum 2)],
                   JObj [(''confidence'', JNull)], JObj [(''confidence'', JNum 0.3)]])])
           = Inr (RichView v)
     \<and> confidenceValues v = [JNum 0.9, JNum 0, JNum 0, JNum 0.3]
     \<and> avgConfidence_view v = Some 0.3
     \<and> confidenceRanges_view v = Some r
     \<and> very_low r = 3 \<and> high r = 1"
proof -
  let ?ps = "[JObj [(''confidence'', JNum 0.9)], JObj [(''window_id'', JNum 2)],
              JObj [(''confidence'', JNull)], JObj [(''confidence'', JNum 0.3)]]"
  let ?result = "JObj [(''predictions_preview'', JArr ?ps)]"
  have a1: "js_get (coalesce ?result (JObj [])) ''predictions_preview'' = JArr ?ps"
    by (simp add: coalesce_def)
  have a2: "\<forall>p \<in> set ?ps. \<not> nullish p" by simp
  have a3: "\<forall>p \<in> set ?ps. nullish (js_get p ''confidence'')
                       \<or> as_number (js_get p ''confidence'') \<noteq> None"
    by (simp del: not_None_eq)
  have g: "given_confidences ?ps = [0.9, 0.3]" by (simp add: given_confidences_def)
  have m: "missing_confidences ?ps = 2" by (simp add: missing_confidences_def)
  from missing_confidence_counts_as_zero [of ?result, THEN conjunct1, rule_format, of ?ps]
    a1 a2 a3
  have "\<exists>v r. Home_rich ?result = Inr (RichView v)
     \<and> confidenceValues v = [JNum 0.9, JNum 0, JNum 0, JNum 0.3]
     \<and> avgConfidence_view v = Some 0.3
     \<and> confidenceRanges_view v = Some r
     \<and> very_low r = 3 \<and> low r = 0 \<and> medium r = 0 \<and> high r = 1"
    unfolding g m by simp
  then show ?thesis by blast
qed

end
